theory Spec2Isabelle
  imports Complex_Main "HOL-Library.Sublist"
begin

section \<open>Python strings\<close>

text \<open>
  The scraper works on URLs with three string primitives of Python: the substring test
  \<^verbatim>\<open>sub in s\<close>, \<^verbatim>\<open>s.split(sep)\<close> and \<^verbatim>\<open>s.endswith(suf)\<close>. Strings are
  character lists.
\<close>

text \<open>\<^verbatim>\<open>sub in s\<close>: some position of \<open>s\<close> starts with \<open>sub\<close>.\<close>

fun str_in :: "string \<Rightarrow> string \<Rightarrow> bool" where
  "str_in sub [] = (sub = [])"
| "str_in sub (c # cs) = (prefix sub (c # cs) \<or> str_in sub cs)"

text \<open>
  The leftmost occurrence of \<open>sep\<close> in a string: the text before it and the text after it.
\<close>

fun find_sep :: "string \<Rightarrow> string \<Rightarrow> (string \<times> string) option" where
  "find_sep sep [] = (if sep = [] then Some ([], []) else None)"
| "find_sep sep (c # cs) =
     (if prefix sep (c # cs) then Some ([], drop (length sep) (c # cs))
      else (case find_sep sep cs of None \<Rightarrow> None | Some (a, b) \<Rightarrow> Some (c # a, b)))"

lemma find_sep_shorter:
  "find_sep sep s = Some (a, b) \<Longrightarrow> sep \<noteq> [] \<Longrightarrow> length b < length s"
proof (induction s arbitrary: a)
  case Nil
  then show ?case by simp
next
  case (Cons c cs)
  show ?case
  proof (cases "prefix sep (c # cs)")
    case True
    with Cons.prems show ?thesis by auto
  next
    case False
    with Cons.prems obtain a' where "find_sep sep cs = Some (a', b)"
      by (auto split: option.splits)
    with Cons.IH Cons.prems(2) show ?thesis by fastforce
  qed
qed

text \<open>
  \<^verbatim>\<open>s.split(sep)\<close> scans from the left and cuts at every occurrence that does not overlap
  an earlier one. Python raises ValueError for an empty separator; the scraper only
  splits at non-empty literals, and the model returns the string uncut there.
\<close>

function py_split :: "string \<Rightarrow> string \<Rightarrow> string list" where
  "py_split sep s =
     (if sep = [] then [s]
      else (case find_sep sep s of
              None \<Rightarrow> [s]
            | Some (a, b) \<Rightarrow> a # py_split sep b))"
  by pat_completeness auto
termination
  by (relation "measure (\<lambda>(sep, s). length s)") (auto dest: find_sep_shorter)

declare py_split.simps [simp del]

text \<open>\<^verbatim>\<open>s.endswith(suf)\<close>.\<close>

definition endswith :: "string \<Rightarrow> string \<Rightarrow> bool" where
  "endswith s suf = (length suf \<le> length s \<and> drop (length s - length suf) s = suf)"

section \<open>Exceptions\<close>

text \<open>
  Every handler of the scraper is \<^verbatim>\<open>except Exception\<close>, a bare \<^verbatim>\<open>except\<close> or
  \<^verbatim>\<open>except TimeoutException\<close>. The exceptions told apart are the timeout of a bounded
  wait, the IndexError of a list index out of range, the ZeroDivisionError and the
  OverflowError of a division, and any other exception.
\<close>

datatype exn =
  TimeoutException | IndexError | ZeroDivisionError | OverflowError | OtherException

text \<open>\<^verbatim>\<open>xs[i]\<close> for an index \<open>i \<ge> 0\<close>.\<close>

definition py_index :: "'a list \<Rightarrow> nat \<Rightarrow> exn + 'a" where
  "py_index xs i = (if i < length xs then Inr (xs ! i) else Inl IndexError)"

section \<open>Short-code extraction and URL cleaning\<close>

text \<open>
  The body of \<^verbatim>\<open>extract_content_id\<close>, inside its \<^verbatim>\<open>try\<close>:
  \<^verbatim>\<open>content_url.split("/p/")[1].split("/")[0]\<close> when the URL contains \<^verbatim>\<open>/p/\<close>, the same
  with \<^verbatim>\<open>/reel/\<close> otherwise, and \<^verbatim>\<open>"unknown"\<close> when it contains neither.
\<close>

definition segment_after :: "string \<Rightarrow> string \<Rightarrow> exn + string" where
  "segment_after marker content_url =
     (case py_index (py_split marker content_url) 1 of
        Inl e \<Rightarrow> Inl e
      | Inr t \<Rightarrow> py_index (py_split ''/'' t) 0)"

definition extract_content_id_body :: "string \<Rightarrow> exn + string" where
  "extract_content_id_body content_url =
     (if str_in ''/p/'' content_url then segment_after ''/p/'' content_url
      else if str_in ''/reel/'' content_url then segment_after ''/reel/'' content_url
      else Inr ''unknown'')"

text \<open>The \<^verbatim>\<open>except Exception\<close> of \<^verbatim>\<open>extract_content_id\<close> returns \<^verbatim>\<open>"unknown"\<close>.\<close>

definition extract_content_id :: "string \<Rightarrow> string" where
  "extract_content_id content_url =
     (case extract_content_id_body content_url of
        Inl e \<Rightarrow> ''unknown''
      | Inr content_id \<Rightarrow> content_id)"

text \<open>
  The cleaning step of \<^verbatim>\<open>_get_current_modal_post_url\<close>:
  \<^verbatim>\<open>current_url.split('/liked_by')[0].split('/comments')[0].split('/tagged')[0].split('?')[0]\<close>,
  then a \<^verbatim>\<open>/\<close> is appended unless the result ends with one.
\<close>

definition first_piece :: "string \<Rightarrow> exn + string \<Rightarrow> exn + string" where
  "first_piece sep r =
     (case r of Inl e \<Rightarrow> Inl e | Inr s \<Rightarrow> py_index (py_split sep s) 0)"

definition clean_url :: "string \<Rightarrow> exn + string" where
  "clean_url current_url =
     (case first_piece ''?'' (first_piece ''/tagged'' (first_piece ''/comments''
             (first_piece ''/liked_by'' (Inr current_url)))) of
        Inl e \<Rightarrow> Inl e
      | Inr clean \<Rightarrow> Inr (if \<not> endswith clean ''/'' then clean @ ''/'' else clean))"


section \<open>Python floats\<close>

text \<open>
  A Python float is an IEEE 754 binary64 number: a finite value, here the rational it
  denotes, an infinity (\<open>True\<close> for the positive one) or a NaN. Every operation returns
  the exact result rounded to the nearest representable value, a tie to the one with an
  even significand. The sign of zero is not kept.
\<close>

datatype pyfloat = Finite rat | Infinite bool | NaN

definition pow2 :: "int \<Rightarrow> rat" where
  "pow2 n = (if 0 \<le> n then 2 ^ nat n else 1 / 2 ^ nat (- n))"

text \<open>The number of binary digits of a positive integer.\<close>

function bit_length :: "int \<Rightarrow> int" where
  "bit_length n = (if n \<le> 0 then 0 else 1 + bit_length (n div 2))"
  by pat_completeness auto
termination
  by (relation "measure nat") auto

declare bit_length.simps [simp del]

text \<open>The binary exponent of a rational other than 0: \<open>2 ^ e \<le> \<bar>x\<bar> < 2 ^ (e + 1)\<close>.\<close>

definition ilog2 :: "rat \<Rightarrow> int" where
  "ilog2 x =
     (if 1 \<le> \<bar>x\<bar> then bit_length \<lfloor>\<bar>x\<bar>\<rfloor> - 1
      else - bit_length (\<lceil>1 / \<bar>x\<bar>\<rceil> - 1))"

text \<open>To the nearest integer, a tie to the even one.\<close>

definition round_half_even :: "rat \<Rightarrow> int" where
  "round_half_even x =
     (if x - of_int \<lfloor>x\<rfloor> < 1/2 then \<lfloor>x\<rfloor>
      else if 1/2 < x - of_int \<lfloor>x\<rfloor> then \<lfloor>x\<rfloor> + 1
      else if even \<lfloor>x\<rfloor> then \<lfloor>x\<rfloor> else \<lfloor>x\<rfloor> + 1)"

text \<open>
  Rounding a rational to binary64: 53 significant bits, the unit in the last place no
  smaller than \<open>2 ^ -1074\<close> (subnormal numbers). The binary exponent of the rounded
  value is that of \<open>x\<close>, or one more when the significand rounds up to \<open>2 ^ 53\<close>; from
  exponent 1024 on the result is an infinity.
\<close>

definition to_double :: "rat \<Rightarrow> pyfloat" where
  "to_double x =
     (if x = 0 then Finite 0
      else let u = max (ilog2 x - 52) (- 1074);
               m = round_half_even (x / pow2 u)
           in if 1024 \<le> ilog2 x + (if 2 ^ 53 \<le> \<bar>m\<bar> then 1 else 0)
              then Infinite (0 < x)
              else Finite (of_int m * pow2 u))"

text \<open>
  \<^verbatim>\<open>a / b\<close> on Python integers: the quotient rounded once; ZeroDivisionError for a zero
  divisor, OverflowError when the quotient is too large for a float.
\<close>

definition int_truediv :: "int \<Rightarrow> int \<Rightarrow> exn + pyfloat" where
  "int_truediv a b =
     (if b = 0 then Inl ZeroDivisionError
      else (case to_double (of_int a / of_int b) of
              Infinite s \<Rightarrow> Inl OverflowError
            | q \<Rightarrow> Inr q))"

text \<open>\<^verbatim>\<open>x * y\<close> and \<^verbatim>\<open>x - y\<close> on floats.\<close>

fun float_mul :: "pyfloat \<Rightarrow> pyfloat \<Rightarrow> pyfloat" where
  "float_mul (Finite x) (Finite y) = to_double (x * y)"
| "float_mul (Infinite s) (Finite y) = (if y = 0 then NaN else Infinite (s = (0 < y)))"
| "float_mul (Finite x) (Infinite s) = (if x = 0 then NaN else Infinite (s = (0 < x)))"
| "float_mul (Infinite s) (Infinite t) = Infinite (s = t)"
| "float_mul NaN y = NaN"
| "float_mul x NaN = NaN"

fun float_sub :: "pyfloat \<Rightarrow> pyfloat \<Rightarrow> pyfloat" where
  "float_sub (Finite x) (Finite y) = to_double (x - y)"
| "float_sub (Infinite s) (Finite y) = Infinite s"
| "float_sub (Finite x) (Infinite s) = Infinite (\<not> s)"
| "float_sub (Infinite s) (Infinite t) = (if s = t then NaN else Infinite s)"
| "float_sub NaN y = NaN"
| "float_sub x NaN = NaN"

text \<open>
  \<^verbatim>\<open>round(x, 2)\<close> on a float: the exact value of \<open>x\<close> is rounded to two decimals, a tie to
  the even digit, and the decimal result is rounded to a float; an infinity or a NaN is
  returned as it is. For a finite float the result is finite.
\<close>

fun py_round2 :: "pyfloat \<Rightarrow> pyfloat" where
  "py_round2 (Finite x) = to_double (of_int (round_half_even (x * 100)) / 100)"
| "py_round2 (Infinite s) = Infinite s"
| "py_round2 NaN = NaN"

section \<open>Configuration constants\<close>

definition PROFILE_DELAY_MIN :: rat where
  "PROFILE_DELAY_MIN = 10"

definition PROFILE_DELAY_MAX :: rat where
  "PROFILE_DELAY_MAX = 15"

definition DEFAULT_WAIT :: nat where
  "DEFAULT_WAIT = 15"

definition CONTENT_POSTS :: string where
  "CONTENT_POSTS = ''posts''"

definition CONTENT_REELS :: string where
  "CONTENT_REELS = ''reels''"

definition CONTENT_BOTH :: string where
  "CONTENT_BOTH = ''both''"

section \<open>The browser driver and the world\<close>

text \<open>
  The scraper drives a browser through Selenium. The driver is an external collaborator:
  a state of an arbitrary type \<open>'d\<close> and a function that answers each request and moves
  to the next state. Nothing is assumed of it, so a theorem holds for every behaviour of
  the browser and the site. Calls that the source makes back to back under one handler,
  with no decision in between, are one request (a bounded wait followed by the click of
  the element it returns; finding a field, clearing it and typing into it).
  Logging is left out: it decides nothing.
\<close>

type_synonym cookie = string

datatype key = ARROW_RIGHT | ESCAPE

datatype request =
    Get string
  | Refresh
  | CurrentUrl
  | DeleteAllCookies
  | AddCookie cookie
  | GetCookies
  | ExecuteScript string
  | WaitPresence nat string
  | WaitAny nat "string list"
  | WaitAnchors
  | ClickClickable nat string
  | FindElement string
  | FindElements string
  | TypeInto string string
  | ClickElement string
  | SendKeysBody key
  | AnchorHrefs
  | Sleep rat rat
  | Now
  | Time

datatype response =
    Raised exn
  | Done
  | Text string
  | Count nat
  | Cookies "cookie list"
  | Hrefs "(exn + string option) list"
  | Seconds rat

type_synonym 'd env = "'d \<Rightarrow> request \<Rightarrow> response \<times> 'd"

text \<open>
  What \<^verbatim>\<open>instagram_session.pkl\<close> holds: bytes that \<^verbatim>\<open>pickle.load\<close> rejects, an object
  without a \<^verbatim>\<open>'cookies'\<close> entry, or a session record.
\<close>

record session_data =
  cookies :: "cookie list"
  saved_at :: string
  user_agent :: string

datatype stored = Unreadable | Malformed | Session session_data

text \<open>
  The world: the driver's state, the requests made so far, in order, and the session
  file (\<open>None\<close> when it does not exist).
\<close>

record 'd world =
  drv :: 'd
  trace :: "request list"
  session_file :: "stored option"

text \<open>A program runs in a world and returns a value or raises, in a new world.\<close>

type_synonym ('a, 'd) prog = "'d world \<Rightarrow> (exn + 'a) \<times> 'd world"

definition ret :: "'a \<Rightarrow> ('a, 'd) prog" where
  "ret a w = (Inr a, w)"

definition raise :: "exn \<Rightarrow> ('a, 'd) prog" where
  "raise e w = (Inl e, w)"

definition xbind :: "('a, 'd) prog \<Rightarrow> ('a \<Rightarrow> ('b, 'd) prog) \<Rightarrow> ('b, 'd) prog" where
  "xbind m f w = (case m w of (Inl e, w') \<Rightarrow> (Inl e, w') | (Inr a, w') \<Rightarrow> f a w')"

text \<open>\<^verbatim>\<open>try: m  except Exception as e: h(e)\<close>.\<close>

definition catch :: "('a, 'd) prog \<Rightarrow> (exn \<Rightarrow> ('a, 'd) prog) \<Rightarrow> ('a, 'd) prog" where
  "catch m h w = (case m w of (Inl e, w') \<Rightarrow> h e w' | (Inr a, w') \<Rightarrow> (Inr a, w'))"

text \<open>\<^verbatim>\<open>try: m  except TimeoutException: h\<close>: any other exception passes through.\<close>

definition catch_timeout :: "('a, 'd) prog \<Rightarrow> ('a, 'd) prog \<Rightarrow> ('a, 'd) prog" where
  "catch_timeout m h = catch m (\<lambda>e. if e = TimeoutException then h else raise e)"

definition lift :: "exn + 'a \<Rightarrow> ('a, 'd) prog" where
  "lift r w = (r, w)"

text \<open>One request to the driver: it is logged, and the driver moves on.\<close>

definition request :: "'d env \<Rightarrow> request \<Rightarrow> 'd world \<Rightarrow> response \<times> 'd world" where
  "request env rq w =
     (case env (drv w) rq of (r, d) \<Rightarrow> (r, w\<lparr>drv := d, trace := trace w @ [rq]\<rparr>))"

definition call :: "'d env \<Rightarrow> request \<Rightarrow> (response, 'd) prog" where
  "call env rq w =
     (case request env rq w of (Raised e, w') \<Rightarrow> (Inl e, w') | (r, w') \<Rightarrow> (Inr r, w'))"

text \<open>A call made for its effect: whatever it returns, it succeeded unless it raised.\<close>

definition perform :: "'d env \<Rightarrow> request \<Rightarrow> (unit, 'd) prog" where
  "perform env rq = xbind (call env rq) (\<lambda>r. ret ())"

text \<open>\<^verbatim>\<open>driver.current_url\<close>: a string, or an exception.\<close>

definition current_url :: "'d env \<Rightarrow> (string, 'd) prog" where
  "current_url env =
     xbind (call env CurrentUrl) (\<lambda>r. case r of Text u \<Rightarrow> ret u | _ \<Rightarrow> raise OtherException)"

text \<open>
  \<^verbatim>\<open>time.sleep\<close>, \<^verbatim>\<open>datetime.now().isoformat()\<close> and \<^verbatim>\<open>time.time()\<close> raise nothing. The
  duration of a sleep is drawn between two bounds, in seconds. The clock's answer is a
  float.
\<close>

definition sleep :: "'d env \<Rightarrow> rat \<Rightarrow> rat \<Rightarrow> (unit, 'd) prog" where
  "sleep env lo hi w = (Inr (), snd (request env (Sleep lo hi) w))"

definition text_of :: "response \<Rightarrow> string" where
  "text_of r = (case r of Text t \<Rightarrow> t | _ \<Rightarrow> [])"

definition seconds_of :: "response \<Rightarrow> pyfloat" where
  "seconds_of r = (case r of Seconds t \<Rightarrow> to_double t | _ \<Rightarrow> Finite 0)"

definition now :: "'d env \<Rightarrow> (string, 'd) prog" where
  "now env w = (case request env Now w of (r, w') \<Rightarrow> (Inr (text_of r), w'))"

definition time :: "'d env \<Rightarrow> (pyfloat, 'd) prog" where
  "time env w = (case request env Time w of (r, w') \<Rightarrow> (Inr (seconds_of r), w'))"

section \<open>Selector fallback: the three viewer actions\<close>

text \<open>
  \<^verbatim>\<open>for selector in selectors: try: WebDriverWait(driver, t).until(clickable).click();
  return True  except (TimeoutException, Exception): continue\<close>. The result tells whether
  the loop returned.
\<close>

fun click_any :: "'d env \<Rightarrow> nat \<Rightarrow> string list \<Rightarrow> (bool, 'd) prog" where
  "click_any env t [] = ret False"
| "click_any env t (selector # selectors) =
     catch (xbind (perform env (ClickClickable t selector)) (\<lambda>_. ret True))
           (\<lambda>e. click_any env t selectors)"

text \<open>A fallback tried after the loop: \<^verbatim>\<open>try: ...; return True  except Exception: pass\<close>.\<close>

definition attempt :: "'d env \<Rightarrow> request \<Rightarrow> (bool, 'd) prog" where
  "attempt env rq = catch (xbind (perform env rq) (\<lambda>_. ret True)) (\<lambda>e. ret False)"

definition first_post_selectors :: "string list" where
  "first_post_selectors =
     [''//article//a[contains(@href, '/p/')]'',
      ''//div[contains(@class, '_aagw')]//a'',
      ''//a[contains(@href, '/p/')][1]'']"

definition click_first_post :: "'d env \<Rightarrow> (bool, 'd) prog" where
  "click_first_post env =
     catch (xbind (click_any env 8 first_post_selectors)
              (\<lambda>clicked. if clicked then ret True else ret False))
           (\<lambda>e. ret False)"

definition next_button_selectors :: "string list" where
  "next_button_selectors =
     [''//button[contains(@class, '_acah')]'',
      ''//button[contains(@class, '_aade')]'',
      ''//button[.//*[local-name()='svg']]'']"

text \<open>The script of the third strategy (its attribute values are written without quotes).\<close>

definition next_button_script :: string where
  "next_button_script =
     ''var nextBtn = document.querySelector('button[class*=_acah], button[class*=_aade]'); if (nextBtn) nextBtn.click();''"

definition go_to_next_post :: "'d env \<Rightarrow> (bool, 'd) prog" where
  "go_to_next_post env =
     catch (xbind (click_any env 3 next_button_selectors) (\<lambda>clicked.
              if clicked then ret True
              else xbind (attempt env (SendKeysBody ARROW_RIGHT)) (\<lambda>sent.
                if sent then ret True
                else xbind (attempt env (ExecuteScript next_button_script)) (\<lambda>ran.
                  if ran then ret True else ret False))))
           (\<lambda>e. ret False)"

definition close_selectors :: "string list" where
  "close_selectors =
     [''//button[contains(@class, '_acab')]'',
      ''//button[.//*[local-name()='svg']][@aria-label='Close']'',
      ''//div[contains(@role, 'button')][@aria-label='Close']'']"

definition close_modal :: "'d env \<Rightarrow> (bool, 'd) prog" where
  "close_modal env =
     catch (xbind (click_any env 3 close_selectors) (\<lambda>clicked.
              if clicked then ret True
              else xbind (attempt env (SendKeysBody ESCAPE)) (\<lambda>sent.
                if sent then ret True else ret False)))
           (\<lambda>e. ret False)"

text \<open>
  The strategies of each action as the requests they make, in the order tried.
\<close>

definition first_post_strategies :: "request list" where
  "first_post_strategies = map (ClickClickable 8) first_post_selectors"

definition next_post_strategies :: "request list" where
  "next_post_strategies =
     map (ClickClickable 3) next_button_selectors
       @ [SendKeysBody ARROW_RIGHT, ExecuteScript next_button_script]"

definition close_strategies :: "request list" where
  "close_strategies = map (ClickClickable 3) close_selectors @ [SendKeysBody ESCAPE]"

text \<open>A strategy fails when its request raises.\<close>

definition fails :: "'d env \<Rightarrow> request \<Rightarrow> 'd world \<Rightarrow> bool" where
  "fails env rq w = (case fst (call env rq w) of Inl e \<Rightarrow> True | Inr r \<Rightarrow> False)"

text \<open>All of a list of strategies fail, each tried in the world the one before left.\<close>

fun all_fail :: "'d env \<Rightarrow> request list \<Rightarrow> 'd world \<Rightarrow> bool" where
  "all_fail env [] w = True"
| "all_fail env (rq # rqs) w = (fails env rq w \<and> all_fail env rqs (snd (call env rq w)))"

fun after :: "'d env \<Rightarrow> request list \<Rightarrow> 'd world \<Rightarrow> 'd world" where
  "after env [] w = w"
| "after env (rq # rqs) w = after env rqs (snd (call env rq w))"


section \<open>Modal navigation\<close>

record content_record =
  content_url :: string
  content_id :: string
  scraped_at :: string
  content_type :: string
  order :: int

text \<open>
  \<^verbatim>\<open>_get_current_modal_post_url\<close>: the address of the browser, \<open>None\<close> unless it
  contains \<^verbatim>\<open>/p/\<close>, cleaned otherwise; \<open>None\<close> on any exception.
\<close>

definition get_current_modal_post_url :: "'d env \<Rightarrow> (string option, 'd) prog" where
  "get_current_modal_post_url env =
     catch (xbind (current_url env) (\<lambda>u.
              if \<not> str_in ''/p/'' u then ret None
              else xbind (lift (clean_url u)) (\<lambda>clean. ret (Some clean))))
           (\<lambda>e. ret None)"

text \<open>
  The collection step of the loop of \<^verbatim>\<open>_navigate_posts_via_arrows\<close>: a URL that is
  truthy (not \<open>None\<close>, not empty) and not among those collected is appended with
  \<^verbatim>\<open>order = len(posts_data) + 1\<close>.
\<close>

definition collect_post ::
  "'d env \<Rightarrow> string option \<Rightarrow> content_record list \<Rightarrow> (content_record list, 'd) prog" where
  "collect_post env current_post_url posts_data =
     (case current_post_url of
        None \<Rightarrow> ret posts_data
      | Some u \<Rightarrow>
          if u \<noteq> [] \<and> u \<notin> set (map content_url posts_data)
          then xbind (now env) (\<lambda>stamp.
                 ret (posts_data @
                   [\<lparr>content_url = u, content_id = extract_content_id u, scraped_at = stamp,
                     content_type = ''post'', order = int (length posts_data) + 1\<rparr>]))
          else ret posts_data)"

text \<open>
  One pass of the loop body: the posts collected so far and whether the loop goes on
  (\<open>False\<close> is \<^verbatim>\<open>break\<close>). An exception in the body breaks too, with what was
  collected before it.
\<close>

definition navigate_step ::
  "'d env \<Rightarrow> int \<Rightarrow> content_record list \<Rightarrow> 'd world
     \<Rightarrow> (content_record list \<times> bool) \<times> 'd world" where
  "navigate_step env num_posts posts_data w =
     (case get_current_modal_post_url env w of
        (Inl e, w1) \<Rightarrow> ((posts_data, False), w1)
      | (Inr current_post_url, w1) \<Rightarrow>
          (case collect_post env current_post_url posts_data w1 of
             (Inl e, w2) \<Rightarrow> ((posts_data, False), w2)
           | (Inr posts, w2) \<Rightarrow>
               if int (length posts) \<ge> num_posts then ((posts, False), w2)
               else (case go_to_next_post env w2 of
                       (Inl e, w3) \<Rightarrow> ((posts, False), w3)
                     | (Inr moved, w3) \<Rightarrow>
                         if \<not> moved then ((posts, False), w3)
                         else ((posts, True), snd (sleep env (3/2) (5/2) w3)))))"

text \<open>
  \<^verbatim>\<open>while len(posts_data) < num_posts and attempts < max_attempts: attempts += 1; ...\<close>
\<close>

function navigate_loop ::
  "'d env \<Rightarrow> int \<Rightarrow> int \<Rightarrow> int \<Rightarrow> content_record list \<Rightarrow> 'd world
     \<Rightarrow> content_record list \<times> 'd world" where
  "navigate_loop env num_posts max_attempts attempts posts_data w =
     (if int (length posts_data) < num_posts \<and> attempts < max_attempts
      then (case navigate_step env num_posts posts_data w of
              ((posts, go_on), w') \<Rightarrow>
                if go_on then navigate_loop env num_posts max_attempts (attempts + 1) posts w'
                else (posts, w'))
      else (posts_data, w))"
  by pat_completeness auto
termination
  by (relation "measure (\<lambda>(env, num_posts, max_attempts, attempts, posts_data, w).
        nat (max_attempts - attempts))") auto

declare navigate_loop.simps [simp del]

definition navigate_posts_via_arrows :: "'d env \<Rightarrow> int \<Rightarrow> (content_record list, 'd) prog" where
  "navigate_posts_via_arrows env num_posts w =
     (case navigate_loop env num_posts (num_posts + 2) 0 [] w of
        (posts_data, w') \<Rightarrow> (Inr posts_data, w'))"

text \<open>\<^verbatim>\<open>try: self._close_modal()  except: pass\<close>.\<close>

definition close_quietly :: "'d env \<Rightarrow> (unit, 'd) prog" where
  "close_quietly env = catch (xbind (close_modal env) (\<lambda>closed. ret ())) (\<lambda>e. ret ())"

text \<open>
  \<^verbatim>\<open>scrape_posts_via_modal_navigation\<close>: the body of its \<^verbatim>\<open>try\<close>, its handler, and
  the function. The handler closes the viewer and returns \<^verbatim>\<open>posts_data\<close>, which is empty
  until the traversal has returned.
\<close>

definition close_after_error ::
  "'d env \<Rightarrow> content_record list \<Rightarrow> (content_record list, 'd) prog" where
  "close_after_error env posts_data = xbind (close_quietly env) (\<lambda>_. ret posts_data)"

definition modal_traversal :: "'d env \<Rightarrow> int \<Rightarrow> (content_record list, 'd) prog" where
  "modal_traversal env num_posts =
     xbind (click_first_post env) (\<lambda>first_post_clicked.
       if \<not> first_post_clicked then ret []
       else xbind (sleep env 2 3) (\<lambda>_.
            xbind (navigate_posts_via_arrows env num_posts) (\<lambda>posts_data.
            catch (xbind (close_modal env) (\<lambda>closed. ret posts_data))
                  (\<lambda>e. close_after_error env posts_data))))"

definition scrape_posts_via_modal_navigation ::
  "'d env \<Rightarrow> string \<Rightarrow> int \<Rightarrow> (content_record list, 'd) prog" where
  "scrape_posts_via_modal_navigation env username num_posts =
     catch (modal_traversal env num_posts) (\<lambda>e. close_after_error env [])"

section \<open>Reel discovery\<close>

text \<open>
  The loop of \<^verbatim>\<open>_find_reel_urls\<close> over the anchors of the page. Each anchor's
  \<^verbatim>\<open>get_attribute("href")\<close> raises, or returns \<open>None\<close> or a string; an anchor that raises
  is skipped. The limit is tested only after an append.
\<close>

fun collect_reels :: "int \<Rightarrow> (exn + string option) list \<Rightarrow> string list \<Rightarrow> string list" where
  "collect_reels max_reels [] ordered_reel_urls = ordered_reel_urls"
| "collect_reels max_reels (Inl e # anchors) ordered_reel_urls =
     collect_reels max_reels anchors ordered_reel_urls"
| "collect_reels max_reels (Inr None # anchors) ordered_reel_urls =
     collect_reels max_reels anchors ordered_reel_urls"
| "collect_reels max_reels (Inr (Some href) # anchors) ordered_reel_urls =
     (if href \<noteq> [] \<and> str_in ''/reel/'' href \<and> href \<notin> set ordered_reel_urls
      then (if int (length (ordered_reel_urls @ [href])) \<ge> max_reels
            then ordered_reel_urls @ [href]
            else collect_reels max_reels anchors (ordered_reel_urls @ [href]))
      else collect_reels max_reels anchors ordered_reel_urls)"

definition anchor_hrefs :: "'d env \<Rightarrow> ((exn + string option) list, 'd) prog" where
  "anchor_hrefs env =
     xbind (call env AnchorHrefs) (\<lambda>r. case r of Hrefs hs \<Rightarrow> ret hs | _ \<Rightarrow> raise OtherException)"

definition find_reel_urls :: "'d env \<Rightarrow> int \<Rightarrow> (string list, 'd) prog" where
  "find_reel_urls env max_reels =
     catch (xbind (catch_timeout (perform env WaitAnchors) (ret ())) (\<lambda>_.
            xbind (anchor_hrefs env) (\<lambda>anchors.
            ret (collect_reels max_reels anchors []))))
           (\<lambda>e. ret [])"

text \<open>
  \<^verbatim>\<open>for i, reel_url in enumerate(reel_urls): time.sleep(random.uniform(0.2, 0.7)); ...\<close>
\<close>

fun reel_items ::
  "'d env \<Rightarrow> nat \<Rightarrow> string list \<Rightarrow> content_record list \<Rightarrow> (content_record list, 'd) prog" where
  "reel_items env i [] reels_data = ret reels_data"
| "reel_items env i (reel_url # reel_urls) reels_data =
     xbind (sleep env (1/5) (7/10)) (\<lambda>_.
     xbind (now env) (\<lambda>stamp.
     reel_items env (Suc i) reel_urls
       (reels_data @
          [\<lparr>content_url = reel_url, content_id = extract_content_id reel_url,
            scraped_at = stamp, content_type = ''reel'', order = int i + 1\<rparr>])))"

text \<open>
  \<^verbatim>\<open>scrape_reels_traditional\<close>. Nothing in its loop raises, so its handler can only
  return the empty list.
\<close>

definition scrape_reels_traditional :: "'d env \<Rightarrow> int \<Rightarrow> (content_record list, 'd) prog" where
  "scrape_reels_traditional env num_reels =
     catch (xbind (find_reel_urls env num_reels) (\<lambda>reel_urls. reel_items env 0 reel_urls []))
           (\<lambda>e. ret [])"

section \<open>One profile\<close>

record profile_data =
  username :: string
  profile_url :: string
  profile_scraped_at :: string
  posts :: "content_record list"
  reels :: "content_record list"

definition profile_loaded_locators :: "string list" where
  "profile_loaded_locators =
     [''//a[contains(@href, '/p/')]'', ''//a[contains(@href, '/reel/')]'', ''//header'',
      ''article'']"

text \<open>
  \<^verbatim>\<open>_wait_for_profile_load\<close>: \<open>True\<close> when the wait succeeds and when it times out; any
  other exception escapes.
\<close>

definition wait_for_profile_load :: "'d env \<Rightarrow> (bool, 'd) prog" where
  "wait_for_profile_load env =
     catch_timeout (xbind (perform env (WaitAny 15 profile_loaded_locators)) (\<lambda>_. ret True))
                   (ret True)"

text \<open>
  The two scraping steps of \<^verbatim>\<open>scrape_profile_content\<close>. An exception in the second
  leaves the posts of the first in \<^verbatim>\<open>profile_data\<close>.
\<close>

definition scrape_content ::
  "'d env \<Rightarrow> string \<Rightarrow> int \<Rightarrow> int \<Rightarrow> string \<Rightarrow> profile_data \<Rightarrow> (profile_data, 'd) prog" where
  "scrape_content env user num_posts num_reels content_kind profile_data =
     xbind (if content_kind \<in> set [CONTENT_POSTS, CONTENT_BOTH] \<and> num_posts > 0
            then xbind (scrape_posts_via_modal_navigation env user num_posts)
                   (\<lambda>posts_data. ret (profile_data\<lparr>posts := posts_data\<rparr>))
            else ret profile_data) (\<lambda>with_posts.
     catch (if content_kind \<in> set [CONTENT_REELS, CONTENT_BOTH] \<and> num_reels > 0
            then xbind (scrape_reels_traditional env num_reels)
                   (\<lambda>reels_data. ret (with_posts\<lparr>reels := reels_data\<rparr>))
            else ret with_posts)
           (\<lambda>e. ret with_posts))"

definition login_or_challenge :: "string \<Rightarrow> bool" where
  "login_or_challenge address = (str_in ''accounts/login'' address \<or> str_in ''challenge'' address)"

definition scrape_profile_content ::
  "'d env \<Rightarrow> string \<Rightarrow> int \<Rightarrow> int \<Rightarrow> string \<Rightarrow> (profile_data, 'd) prog" where
  "scrape_profile_content env user num_posts num_reels content_kind =
     xbind (now env) (\<lambda>stamp.
       catch (xbind (perform env (Get (''https://www.instagram.com/'' @ user @ ''/''))) (\<lambda>_.
              xbind (wait_for_profile_load env) (\<lambda>loaded.
              if \<not> loaded
              then ret \<lparr>username = user,
                        profile_url = ''https://www.instagram.com/'' @ user @ ''/'',
                        profile_scraped_at = stamp, posts = [], reels = []\<rparr>
              else xbind (current_url env) (\<lambda>address.
                if login_or_challenge address
                then ret \<lparr>username = user,
                          profile_url = ''https://www.instagram.com/'' @ user @ ''/'',
                          profile_scraped_at = stamp, posts = [], reels = []\<rparr>
                else scrape_content env user num_posts num_reels content_kind
                       \<lparr>username = user,
                        profile_url = ''https://www.instagram.com/'' @ user @ ''/'',
                        profile_scraped_at = stamp, posts = [], reels = []\<rparr>))))
             (\<lambda>e. ret \<lparr>username = user,
                        profile_url = ''https://www.instagram.com/'' @ user @ ''/'',
                        profile_scraped_at = stamp, posts = [], reels = []\<rparr>))"

section \<open>Many profiles\<close>

record profile_summary =
  summary_username :: string
  posts_count :: nat
  reels_count :: nat
  scraping_time_seconds :: pyfloat
  success :: bool

record profile_result =
  profile :: profile_data
  summary :: profile_summary

record batch_summary =
  total_profiles :: nat
  successful_profiles :: nat
  total_posts :: nat
  total_reels :: nat
  batch_scraped_at :: string
  success_rate :: pyfloat

record batch_result =
  profiles :: "profile_result list"
  totals :: batch_summary

text \<open>
  The body of the loop of \<^verbatim>\<open>scrape_multiple_profiles\<close> up to the pacing delay: the
  profile is scraped between two readings of the clock, and its result is built.
\<close>

definition scrape_one ::
  "'d env \<Rightarrow> string \<Rightarrow> int \<Rightarrow> int \<Rightarrow> string \<Rightarrow> (profile_result, 'd) prog" where
  "scrape_one env user posts_per_profile reels_per_profile content_kind =
     xbind (time env) (\<lambda>start_time.
     xbind (scrape_profile_content env user posts_per_profile reels_per_profile content_kind)
       (\<lambda>profile_data.
     xbind (time env) (\<lambda>end_time.
     ret \<lparr>profile = profile_data,
          summary =
            \<lparr>summary_username = user,
             posts_count = length (posts profile_data),
             reels_count = length (reels profile_data),
             scraping_time_seconds = py_round2 (float_sub end_time start_time),
             success = (length (posts profile_data) > 0 \<or> length (reels profile_data) > 0)\<rparr>\<rparr>)))"

text \<open>The result is appended, and counted when it is a success.\<close>

definition add_result :: "batch_result \<Rightarrow> profile_result \<Rightarrow> batch_result" where
  "add_result all_results profile_result =
     (if success (summary profile_result)
      then \<lparr>profiles = profiles all_results @ [profile_result],
            totals = (totals all_results)
              \<lparr>successful_profiles := successful_profiles (totals all_results) + 1,
               total_posts := total_posts (totals all_results) + posts_count (summary profile_result),
               total_reels := total_reels (totals all_results) + reels_count (summary profile_result)\<rparr>\<rparr>
      else \<lparr>profiles = profiles all_results @ [profile_result], totals = totals all_results\<rparr>)"

text \<open>
  \<^verbatim>\<open>for i, username in enumerate(usernames, 1): ...; if i < len(usernames):
  time.sleep(random.randint(PROFILE_DELAY_MIN, PROFILE_DELAY_MAX))\<close>. Here \<open>n\<close> is
  \<^verbatim>\<open>len(usernames)\<close>.
\<close>

fun profiles_loop ::
  "'d env \<Rightarrow> nat \<Rightarrow> nat \<Rightarrow> string list \<Rightarrow> int \<Rightarrow> int \<Rightarrow> string \<Rightarrow> batch_result
     \<Rightarrow> (batch_result, 'd) prog" where
  "profiles_loop env n i [] posts_per_profile reels_per_profile content_kind all_results =
     ret all_results"
| "profiles_loop env n i (user # users) posts_per_profile reels_per_profile content_kind
       all_results =
     xbind (scrape_one env user posts_per_profile reels_per_profile content_kind)
       (\<lambda>profile_result.
     xbind (if i < n then sleep env PROFILE_DELAY_MIN PROFILE_DELAY_MAX else ret ()) (\<lambda>_.
     profiles_loop env n (Suc i) users posts_per_profile reels_per_profile content_kind
       (add_result all_results profile_result)))"

text \<open>
  \<^verbatim>\<open>round((success_count / total * 100) if total else 0.0, 2)\<close>: the integer division
  is made only for a total other than 0, its quotient is multiplied by \<^verbatim>\<open>100\<close> as a
  float, and the product is rounded to two decimals.
\<close>

definition success_rate_of :: "nat \<Rightarrow> nat \<Rightarrow> exn + pyfloat" where
  "success_rate_of success_count total_count =
     (case (if total_count \<noteq> 0
            then (case int_truediv (int success_count) (int total_count) of
                    Inl e \<Rightarrow> Inl e
                  | Inr q \<Rightarrow> Inr (float_mul q (Finite 100)))
            else Inr (Finite 0)) of
        Inl e \<Rightarrow> Inl e
      | Inr x \<Rightarrow> Inr (py_round2 x))"

text \<open>
  \<^verbatim>\<open>scrape_multiple_profiles\<close>. The summary's \<^verbatim>\<open>success_rate\<close> entry is added after the
  loop; in the record it is 0 until then.
\<close>

definition scrape_multiple_profiles ::
  "'d env \<Rightarrow> string list \<Rightarrow> int \<Rightarrow> int \<Rightarrow> string \<Rightarrow> (batch_result, 'd) prog" where
  "scrape_multiple_profiles env usernames posts_per_profile reels_per_profile content_kind =
     xbind (now env) (\<lambda>stamp.
     xbind (profiles_loop env (length usernames) 1 usernames posts_per_profile
              reels_per_profile content_kind
              \<lparr>profiles = [],
               totals = \<lparr>total_profiles = length usernames, successful_profiles = 0,
                         total_posts = 0, total_reels = 0, batch_scraped_at = stamp,
                         success_rate = Finite 0\<rparr>\<rparr>) (\<lambda>all_results.
     xbind (lift (success_rate_of (successful_profiles (totals all_results))
                    (total_profiles (totals all_results)))) (\<lambda>rate.
     ret (all_results\<lparr>totals := (totals all_results)\<lparr>success_rate := rate\<rparr>\<rparr>))))"

section \<open>Session persistence\<close>

text \<open>\<^verbatim>\<open>open(SESSION_FILE, 'wb')\<close>, \<^verbatim>\<open>pickle.dump\<close> and \<^verbatim>\<open>os.remove(SESSION_FILE)\<close>.\<close>

definition write_session_file :: "session_data \<Rightarrow> (unit, 'd) prog" where
  "write_session_file sd w = (Inr (), w\<lparr>session_file := Some (Session sd)\<rparr>)"

definition remove_session_file :: "(unit, 'd) prog" where
  "remove_session_file w = (Inr (), w\<lparr>session_file := None\<rparr>)"

definition cookies_of :: "response \<Rightarrow> cookie list" where
  "cookies_of r = (case r of Cookies cs \<Rightarrow> cs | _ \<Rightarrow> [])"

definition save_session :: "'d env \<Rightarrow> (bool, 'd) prog" where
  "save_session env =
     catch (xbind (perform env (Get ''https://www.instagram.com/'')) (\<lambda>_.
            xbind (sleep env 2 2) (\<lambda>_.
            xbind (call env GetCookies) (\<lambda>got.
            xbind (now env) (\<lambda>stamp.
            xbind (call env (ExecuteScript ''return navigator.userAgent;'')) (\<lambda>agent.
            xbind (write_session_file
                     \<lparr>cookies = cookies_of got, saved_at = stamp, user_agent = text_of agent\<rparr>)
              (\<lambda>_. ret True)))))))
           (\<lambda>e. ret False)"

text \<open>\<^verbatim>\<open>pickle.load(f)\<close> and \<^verbatim>\<open>session_data['cookies']\<close>.\<close>

definition unpickle :: "stored \<Rightarrow> exn + stored" where
  "unpickle st = (case st of Unreadable \<Rightarrow> Inl OtherException | _ \<Rightarrow> Inr st)"

definition cookies_entry :: "stored \<Rightarrow> exn + cookie list" where
  "cookies_entry st = (case st of Session sd \<Rightarrow> Inr (cookies sd) | _ \<Rightarrow> Inl OtherException)"

text \<open>
  \<^verbatim>\<open>for cookie in ...: try: self.driver.add_cookie(cookie)  except Exception: continue\<close>
\<close>

fun add_cookies :: "'d env \<Rightarrow> cookie list \<Rightarrow> (unit, 'd) prog" where
  "add_cookies env [] = ret ()"
| "add_cookies env (c # cs) =
     xbind (catch (perform env (AddCookie c)) (\<lambda>e. ret ())) (\<lambda>_. add_cookies env cs)"

text \<open>The restore steps of \<^verbatim>\<open>load_session\<close> between loading the file and the check.\<close>

definition restore_cookies :: "'d env \<Rightarrow> stored \<Rightarrow> (unit, 'd) prog" where
  "restore_cookies env session =
     xbind (perform env (Get ''https://www.instagram.com/'')) (\<lambda>_.
     xbind (sleep env 2 2) (\<lambda>_.
     xbind (perform env DeleteAllCookies) (\<lambda>_.
     xbind (lift (cookies_entry session)) (\<lambda>cs.
     xbind (add_cookies env cs) (\<lambda>_.
     xbind (perform env Refresh) (\<lambda>_.
     sleep env 3 3))))))"

definition login_indicators :: "string list" where
  "login_indicators =
     [''//input[@aria-label='Search']'',
      ''//a[contains(@href, '/direct/inbox/')]'',
      ''//span[contains(text(), 'Home')]'',
      ''//div[contains(text(), 'Search')]'']"

text \<open>
  \<^verbatim>\<open>for indicator in indicators: try: WebDriverWait(self.driver, 5).until(presence);
  return True  except TimeoutException: continue\<close>. The result tells whether the loop
  returned; an exception other than the timeout escapes the loop.
\<close>

fun probe_indicators :: "'d env \<Rightarrow> string list \<Rightarrow> (bool, 'd) prog" where
  "probe_indicators env [] = ret False"
| "probe_indicators env (indicator # indicators) =
     catch_timeout (xbind (perform env (WaitPresence 5 indicator)) (\<lambda>_. ret True))
                   (probe_indicators env indicators)"

definition elements_found :: "response \<Rightarrow> bool" where
  "elements_found r = (case r of Count n \<Rightarrow> 0 < n | _ \<Rightarrow> False)"

definition check_login_status :: "'d env \<Rightarrow> (bool, 'd) prog" where
  "check_login_status env =
     catch (xbind (probe_indicators env login_indicators) (\<lambda>found.
              if found then ret True
              else xbind (current_url env) (\<lambda>address.
                if str_in ''accounts/login'' address \<or> str_in ''login'' address then ret False
                else xbind (catch (xbind (call env (FindElements ''//button[contains(text(), 'Log in')]''))
                                     (\<lambda>r. ret (elements_found r)))
                                  (\<lambda>e. ret False)) (\<lambda>login_elements.
                  if login_elements then ret False else ret False))))
           (\<lambda>e. ret False)"

text \<open>
  \<^verbatim>\<open>load_session\<close>. Only its exception handler removes the session file.
\<close>

definition load_session :: "'d env \<Rightarrow> (bool, 'd) prog" where
  "load_session env =
     catch (\<lambda>w. case session_file w of
                  None \<Rightarrow> ret False w
                | Some st \<Rightarrow>
                    xbind (lift (unpickle st)) (\<lambda>session.
                    xbind (restore_cookies env session) (\<lambda>_.
                    check_login_status env)) w)
           (\<lambda>e. xbind (catch remove_session_file (\<lambda>e. ret ())) (\<lambda>_. ret False))"

section \<open>Login\<close>

text \<open>
  The steps of a fresh login up to the pause after the form is submitted. Any exception
  among them reaches the outer handler of \<^verbatim>\<open>login\<close>.
\<close>

definition submit_credentials :: "'d env \<Rightarrow> string \<Rightarrow> string \<Rightarrow> (unit, 'd) prog" where
  "submit_credentials env user password =
     xbind (perform env DeleteAllCookies) (\<lambda>_.
     xbind (perform env (Get ''https://www.instagram.com/accounts/login/'')) (\<lambda>_.
     xbind (sleep env 2 2) (\<lambda>_.
     xbind (perform env (WaitPresence DEFAULT_WAIT ''username'')) (\<lambda>_.
     xbind (perform env (TypeInto ''username'' user)) (\<lambda>_.
     xbind (perform env (TypeInto ''password'' password)) (\<lambda>_.
     xbind (perform env (ClickElement ''//button[@type='submit']'')) (\<lambda>_.
     sleep env 2 3)))))))"

definition home_indicators :: "string list" where
  "home_indicators =
     [''//input[@aria-label='Search']'',
      ''//a[contains(@href, '/direct/inbox/')]'',
      ''//span[contains(text(), 'Home')]'']"

text \<open>\<^verbatim>\<open>if use_session: self.save_session()\<close>: the result of saving is dropped.\<close>

definition save_if :: "'d env \<Rightarrow> bool \<Rightarrow> (unit, 'd) prog" where
  "save_if env use_session =
     (if use_session then xbind (save_session env) (\<lambda>saved. ret ()) else ret ())"

text \<open>
  The handler of the timed-out wait: an error alert means failure; otherwise the address
  decides, and anything but the login page counts as logged in.
\<close>

definition login_timeout_fallback :: "'d env \<Rightarrow> bool \<Rightarrow> (bool, 'd) prog" where
  "login_timeout_fallback env use_session =
     xbind (attempt env (FindElement ''slfErrorAlert'')) (\<lambda>error_element.
       if error_element then ret False
       else xbind (current_url env) (\<lambda>address.
         if str_in ''accounts/login'' address then ret False
         else xbind (save_if env use_session) (\<lambda>_. ret True)))"

definition await_login_outcome :: "'d env \<Rightarrow> bool \<Rightarrow> (bool, 'd) prog" where
  "await_login_outcome env use_session =
     catch_timeout (xbind (perform env (WaitAny 15 home_indicators)) (\<lambda>_.
                    xbind (save_if env use_session) (\<lambda>_. ret True)))
                   (login_timeout_fallback env use_session)"

definition fresh_login :: "'d env \<Rightarrow> string \<Rightarrow> string \<Rightarrow> bool \<Rightarrow> (bool, 'd) prog" where
  "fresh_login env user password use_session =
     catch (xbind (submit_credentials env user password) (\<lambda>_.
            xbind (current_url env) (\<lambda>address.
            xbind (if str_in ''challenge'' address \<or> str_in ''two_factor'' address
                   then sleep env 5 5 else ret ()) (\<lambda>_.
            await_login_outcome env use_session))))
           (\<lambda>e. ret False)"

text \<open>\<^verbatim>\<open>if use_session and self.load_session(): return True\<close>, then the fresh login.\<close>

definition login :: "'d env \<Rightarrow> string \<Rightarrow> string \<Rightarrow> bool \<Rightarrow> (bool, 'd) prog" where
  "login env user password use_session =
     xbind (if use_session then load_session env else ret False) (\<lambda>restored.
       if restored then ret True else fresh_login env user password use_session)"

section \<open>Notions used in the statements and proofs\<close>

text \<open>The first piece of a split: the text before the leftmost separator.\<close>

definition before :: "string \<Rightarrow> string \<Rightarrow> string" where
  "before sep s = (case find_sep sep s of None \<Rightarrow> s | Some (a, b) \<Rightarrow> a)"

definition with_slash :: "string \<Rightarrow> string" where
  "with_slash c = (if \<not> endswith c ''/'' then c @ ''/'' else c)"

text \<open>A fallback chain as one loop over its strategies: the first that does not fail wins.\<close>

fun run_strategies :: "'d env \<Rightarrow> request list \<Rightarrow> 'd world \<Rightarrow> bool \<times> 'd world" where
  "run_strategies env [] w = (False, w)"
| "run_strategies env (rq # rqs) w =
     (if fails env rq w then run_strategies env rqs (snd (call env rq w))
      else (True, snd (call env rq w)))"

definition as_prog :: "bool \<times> 'd world \<Rightarrow> (exn + bool) \<times> 'd world" where
  "as_prog r = (Inr (fst r), snd r)"

text \<open>
  What is claimed of a selector-fallback action with a given list of strategies, in every
  world: it reports success when some strategy succeeds after all earlier ones failed,
  it reports failure when all fail, and it never raises.
\<close>

definition fallback_ok :: "'d env \<Rightarrow> request list \<Rightarrow> (bool, 'd) prog \<Rightarrow> bool" where
  "fallback_ok env strategies action =
     (\<forall>w. (\<forall>pre rq post.
             strategies = pre @ rq # post \<and> all_fail env pre w \<and> \<not> fails env rq (after env pre w)
             \<longrightarrow> fst (action w) = Inr True)
        \<and> (all_fail env strategies w \<longrightarrow> fst (action w) = Inr False)
        \<and> (\<exists>b. fst (action w) = Inr b))"

text \<open>
  Browsers for the examples. In the first no button is ever clickable and the keyboard
  works; in the second every request raises.
\<close>

definition keyboard_only :: "unit env" where
  "keyboard_only d rq =
     (case rq of ClickClickable t s \<Rightarrow> (Raised TimeoutException, d) | _ \<Rightarrow> (Done, d))"

definition dead_browser :: "unit env" where
  "dead_browser d rq = (Raised OtherException, d)"

definition start :: "unit world" where
  "start = \<lparr>drv = (), trace = [], session_file = None\<rparr>"

text \<open>
  A reference as the viewer's reader returns it: the cleaned form of an address that
  contains \<^verbatim>\<open>/p/\<close>.
\<close>

definition cleaned :: "string \<Rightarrow> bool" where
  "cleaned u = (\<exists>a. str_in ''/p/'' a \<and> clean_url a = Inr u)"

text \<open>One record more, as the traversal appends it.\<close>

definition appended :: "content_record list \<Rightarrow> content_record list \<Rightarrow> bool" where
  "appended collected collected' =
     (\<exists>u stamp. cleaned u \<and> u \<notin> set (map content_url collected) \<and>
        collected' = collected @ [\<lparr>content_url = u, content_id = extract_content_id u, scraped_at = stamp,
          content_type = ''post'', order = int (length collected) + 1\<rparr>])"

text \<open>
  The pacing delay of the orchestrator, \<^verbatim>\<open>time.sleep(random.randint(10, 15))\<close>, as a
  request. A run from \<open>w\<close> to \<open>w'\<close> is inside a profile when it leaves the session file
  alone and makes requests other than the pacing delay.
\<close>

definition profile_delay :: request where
  "profile_delay = Sleep PROFILE_DELAY_MIN PROFILE_DELAY_MAX"

definition inside :: "'d world \<Rightarrow> 'd world \<Rightarrow> bool" where
  "inside w w' =
     (session_file w' = session_file w \<and> (\<exists>es. trace w' = trace w @ es \<and> profile_delay \<notin> set es))"

definition local_prog :: "('a, 'd) prog \<Rightarrow> bool" where
  "local_prog m = (\<forall>w. inside w (snd (m w)))"

text \<open>
  The close-viewer action was invoked between two worlds: its first request, the bounded
  wait for the first close selector, is among the requests made.
\<close>

definition close_invoked :: "'d world \<Rightarrow> 'd world \<Rightarrow> bool" where
  "close_invoked w w' = (hd close_strategies \<in> set (drop (length (trace w)) (trace w')))"

text \<open>
  A scripted browser: its state is the list of addresses the viewer still has to show,
  the first of them on screen. Only the first next-button selector is clickable, and
  only while another address follows.
\<close>

definition gallery :: "string list env" where
  "gallery d rq =
     (case rq of
        CurrentUrl \<Rightarrow> (case d of [] \<Rightarrow> (Raised OtherException, d) | u # us \<Rightarrow> (Text u, d))
      | ClickClickable t s \<Rightarrow>
          (if s = hd next_button_selectors \<and> 1 < length d then (Done, tl d)
           else if s = hd first_post_selectors \<and> d \<noteq> [] then (Done, d)
           else (Raised TimeoutException, d))
      | Now \<Rightarrow> (Text ''2024-05-01T10:00:00'', d)
      | _ \<Rightarrow> (Done, d))"

definition showing :: "string list \<Rightarrow> string list world" where
  "showing addresses = \<lparr>drv = addresses, trace = [], session_file = None\<rparr>"

text \<open>
  What is claimed of the records a traversal returns for a requested count: at most that
  many, their \<open>order\<close> fields 1, 2, ... in sequence, no reference twice.
\<close>

definition ordered_unique :: "int \<Rightarrow> content_record list \<Rightarrow> bool" where
  "ordered_unique n collected =
     (int (length collected) \<le> n \<and> map order collected = [1..int (length collected)]
      \<and> distinct (map content_url collected))"

definition tour :: "string list" where
  "tour =
     [''https://www.instagram.com/p/Cx1/'',
      ''https://www.instagram.com/p/Cx1/?img_index=2'',
      ''https://www.instagram.com/reel/Rr7/'',
      ''https://www.instagram.com/p/Cx2/liked_by/'']"

text \<open>A program that lets no exception escape.\<close>

definition never_raises :: "('a, 'd) prog \<Rightarrow> bool" where
  "never_raises m = (\<forall>w. \<exists>a. fst (m w) = Inr a)"

text \<open>The world after the orchestrator's pacing delay.\<close>

definition paced :: "'d env \<Rightarrow> 'd world \<Rightarrow> 'd world" where
  "paced env w = snd (sleep env PROFILE_DELAY_MIN PROFILE_DELAY_MAX w)"





text \<open>
  A browser whose session has expired: no logged-in indicator ever appears and the
  address is the login page. The session file holds a stale record.
\<close>

definition expired :: "unit env" where
  "expired d rq =
     (case rq of
        WaitPresence t locator \<Rightarrow> (Raised TimeoutException, d)
      | CurrentUrl \<Rightarrow> (Text ''https://www.instagram.com/accounts/login/'', d)
      | _ \<Rightarrow> (Done, d))"

definition stale :: session_data where
  "stale = \<lparr>cookies = [''sessionid=1''], saved_at = ''2024-04-01T09:00:00'',
            user_agent = ''Mozilla/5.0''\<rparr>"

definition kept :: "unit world" where
  "kept = \<lparr>drv = (), trace = [], session_file = Some (Session stale)\<rparr>"


text \<open>
  A browser after a login whose home page is slow: no logged-in indicator is ever found,
  the wait for the home indicators times out, there is no error alert, and the address
  is the home page. In the second browser, moreover, reading the cookies raises.
\<close>

definition slow_home :: "unit env" where
  "slow_home d rq =
     (case rq of
        WaitPresence t locator \<Rightarrow>
          (if locator = ''username'' then Done else Raised TimeoutException, d)
      | WaitAny t locators \<Rightarrow> (Raised TimeoutException, d)
      | FindElement locator \<Rightarrow> (Raised OtherException, d)
      | CurrentUrl \<Rightarrow> (Text ''https://www.instagram.com/'', d)
      | GetCookies \<Rightarrow> (Cookies [''sessionid=42''], d)
      | ExecuteScript script \<Rightarrow> (Text ''Mozilla/5.0'', d)
      | Now \<Rightarrow> (Text ''2024-05-01T10:00:00'', d)
      | _ \<Rightarrow> (Done, d))"

definition no_cookies :: "unit env" where
  "no_cookies d rq =
     (case rq of GetCookies \<Rightarrow> (Raised OtherException, d) | _ \<Rightarrow> slow_home d rq)"

section \<open>Strings: splitting and substrings\<close>

lemma str_in_sublist: "str_in sub s = sublist sub s"
  by (induction s) (auto simp: sublist_Cons_right)

lemma py_split_first: "sep \<noteq> [] \<Longrightarrow> py_index (py_split sep s) 0 = Inr (before sep s)"
  by (auto simp: py_split.simps [of sep s] py_index_def before_def split: option.splits)

lemma find_sep_None: "sep \<noteq> [] \<Longrightarrow> (find_sep sep s = None) = (\<not> str_in sep s)"
  by (induction s) (auto split: option.splits)

lemma find_sep_Some:
  "find_sep sep s = Some (a, b) \<Longrightarrow> sep \<noteq> [] \<Longrightarrow> s = a @ sep @ b \<and> \<not> str_in sep a"
proof (induction s arbitrary: a)
  case Nil
  then show ?case by simp
next
  case (Cons c cs)
  show ?case
  proof (cases "prefix sep (c # cs)")
    case True
    with Cons.prems show ?thesis by (auto simp: prefix_def)
  next
    case False
    with Cons.prems obtain a' where a': "find_sep sep cs = Some (a', b)" "a = c # a'"
      by (auto split: option.splits)
    with Cons.IH Cons.prems(2) have "cs = a' @ sep @ b" "\<not> str_in sep a'" by auto
    moreover have "\<not> prefix sep (c # a')"
    proof
      assume "prefix sep (c # a')"
      then have "prefix sep (c # a' @ sep @ b)" by (metis append_Cons prefix_prefix)
      with False \<open>cs = a' @ sep @ b\<close> show False by simp
    qed
    ultimately show ?thesis using a' by simp
  qed
qed

lemma before_prefix: "sep \<noteq> [] \<Longrightarrow> prefix (before sep s) s"
  by (auto simp: before_def split: option.splits dest: find_sep_Some)

lemma before_free: "sep \<noteq> [] \<Longrightarrow> \<not> str_in sep (before sep s)"
  by (auto simp: before_def find_sep_None split: option.splits dest: find_sep_Some)

lemma before_id: "sep \<noteq> [] \<Longrightarrow> \<not> str_in sep s \<Longrightarrow> before sep s = s"
  by (simp add: before_def find_sep_None [symmetric])

lemma str_in_prefix: "prefix p s \<Longrightarrow> str_in sep p \<Longrightarrow> str_in sep s"
  unfolding str_in_sublist by (meson prefix_imp_sublist sublist_order.order.trans)

lemma before_keeps_free: "\<not> str_in sep s \<Longrightarrow> t \<noteq> [] \<Longrightarrow> \<not> str_in sep (before t s)"
  using before_prefix str_in_prefix by blast

lemma str_in_snoc:
  assumes "\<not> str_in sep s" "sep \<noteq> []" "last sep \<noteq> c"
  shows "\<not> str_in sep (s @ [c])"
proof
  assume "str_in sep (s @ [c])"
  then obtain ps ss where eq: "s @ [c] = ps @ sep @ ss"
    by (auto simp: str_in_sublist sublist_def)
  show False
  proof (cases ss rule: rev_cases)
    case Nil
    with eq have "last (s @ [c]) = last (ps @ sep)" by simp
    with assms show False by simp
  next
    case (snoc ss' x)
    with eq have "s = ps @ sep @ ss'" by (metis append_assoc butlast_snoc)
    with assms(1) show False by (auto simp: str_in_sublist sublist_def)
  qed
qed

text \<open>A separator is found where it stands when no occurrence starts before it.\<close>

lemma find_sep_at:
  "\<not> str_in sep (pre @ butlast sep) \<Longrightarrow> sep \<noteq> [] \<Longrightarrow>
   find_sep sep (pre @ sep @ rest) = Some (pre, rest)"
proof (induction pre)
  case Nil
  then show ?case by (cases sep) auto
next
  case (Cons x xs)
  have np: "\<not> prefix sep (x # xs @ sep @ rest)"
  proof
    assume p: "prefix sep (x # xs @ sep @ rest)"
    have "x # xs @ sep @ rest = ((x # xs) @ butlast sep) @ (last sep # rest)"
      using Cons.prems(2) by simp
    moreover have "length sep \<le> length ((x # xs) @ butlast sep)" by simp
    ultimately have "prefix sep ((x # xs) @ butlast sep)"
      using p by (metis prefix_length_prefix prefixI)
    then have "str_in sep ((x # xs) @ butlast sep)"
      by (simp add: str_in_sublist)
    with Cons.prems(1) show False by simp
  qed
  from Cons.prems(1) have "\<not> str_in sep (xs @ butlast sep)" by simp
  with Cons.IH Cons.prems(2) have "find_sep sep (xs @ sep @ rest) = Some (xs, rest)" by simp
  with np show ?case by simp
qed

lemma before_skip:
  "\<forall>x\<in>set xs. x \<noteq> hd sep \<Longrightarrow> sep \<noteq> [] \<Longrightarrow> before sep (xs @ r) = xs @ before sep r"
proof (induction xs)
  case Nil
  then show ?case by simp
next
  case (Cons x xs)
  then have "\<not> prefix sep (x # xs @ r)" by (cases sep) auto
  with Cons show ?case by (auto simp: before_def split: option.splits)
qed

section \<open>Short-code extraction\<close>

lemma segment_after_at:
  assumes "\<not> str_in marker (pre @ butlast marker)" "marker \<noteq> []" "hd marker = CHR ''/''"
    and "CHR ''/'' \<notin> set cid"
  shows "segment_after marker (pre @ marker @ cid @ ''/'' @ suf) = Inr cid"
proof -
  let ?rest = "cid @ ''/'' @ suf"
  have f: "find_sep marker (pre @ marker @ ?rest) = Some (pre, ?rest)"
    using assms(1,2) by (rule find_sep_at)
  have "py_split marker (pre @ marker @ ?rest) = pre # py_split marker ?rest"
    using f assms(2) by (subst py_split.simps) simp
  moreover obtain t ts where ts: "py_split marker ?rest = t # ts" "t = before marker ?rest"
    using py_split_first [OF assms(2), of ?rest]
    by (cases "py_split marker ?rest") (auto simp: py_index_def)
  ultimately have 1: "py_index (py_split marker (pre @ marker @ ?rest)) 1 = Inr t"
    by (simp add: py_index_def)
  have "t = cid @ before marker (''/'' @ suf)"
    unfolding ts(2) using assms(2,3,4) by (intro before_skip) auto
  moreover have "prefix (before marker (''/'' @ suf)) (''/'' @ suf)"
    using assms(2) by (rule before_prefix)
  ultimately obtain v where v: "t = cid @ v" "v = [] \<or> (\<exists>v'. v = CHR ''/'' # v')"
    by (cases "before marker (''/'' @ suf)") auto
  have "before ''/'' (cid @ v) = cid @ before ''/'' v"
    using assms(4) by (intro before_skip) auto
  moreover have "before ''/'' v = []" using v(2) by (auto simp: before_def)
  ultimately have "py_index (py_split ''/'' t) 0 = Inr cid"
    using v(1) by (simp add: py_split_first)
  with 1 show ?thesis by (simp add: segment_after_def)
qed

text \<open>
  C7, as stated: every reference containing \<^verbatim>\<open>/p/abc123/\<close> yields \<^verbatim>\<open>abc123\<close>. It fails
  for a reference with an earlier \<^verbatim>\<open>/p/\<close>: the code takes the segment after the first
  marker.
\<close>

theorem extract_content_id_later_marker:
  "str_in ''/p/abc123/'' ''https://www.instagram.com/p/xyz789/?next=/p/abc123/''
   \<and> extract_content_id ''https://www.instagram.com/p/xyz789/?next=/p/abc123/'' = ''xyz789''
   \<and> extract_content_id ''https://www.instagram.com/p/xyz789/?next=/p/abc123/'' \<noteq> ''abc123''"
  by (simp add: extract_content_id_def extract_content_id_body_def segment_after_def
      py_split.simps py_index_def)

text \<open>
  C7, amended: a reference whose first \<^verbatim>\<open>/p/\<close> marker is the one of \<^verbatim>\<open>/p/abc123/\<close> yields
  \<^verbatim>\<open>abc123\<close>; a reference without \<^verbatim>\<open>/p/\<close> whose first \<^verbatim>\<open>/reel/\<close> marker is the one of
  \<^verbatim>\<open>/reel/xyz789/?igsh=...\<close> yields \<^verbatim>\<open>xyz789\<close>; a reference containing neither marker
  yields \<^verbatim>\<open>unknown\<close>. (No occurrence of a marker starts inside \<open>pre\<close> when the marker is
  not a substring of \<open>pre\<close> followed by the marker without its last character.)
\<close>

theorem extract_content_id_first_marker:
  "(\<not> str_in ''/p/'' (pre @ ''/p'')
      \<longrightarrow> extract_content_id (pre @ ''/p/abc123/'' @ suf) = ''abc123'')
   \<and> (\<not> str_in ''/p/'' (pre @ ''/reel/xyz789/?igsh='' @ suf) \<and> \<not> str_in ''/reel/'' (pre @ ''/reel'')
      \<longrightarrow> extract_content_id (pre @ ''/reel/xyz789/?igsh='' @ suf) = ''xyz789'')
   \<and> (\<not> str_in ''/p/'' u \<and> \<not> str_in ''/reel/'' u \<longrightarrow> extract_content_id u = ''unknown'')"
proof (intro conjI impI)
  assume a: "\<not> str_in ''/p/'' (pre @ ''/p'')"
  have "segment_after ''/p/'' (pre @ ''/p/'' @ ''abc123'' @ ''/'' @ suf) = Inr ''abc123''"
    using a by (intro segment_after_at) simp_all
  moreover have "str_in ''/p/'' (pre @ ''/p/abc123/'' @ suf)"
    by (simp add: str_in_sublist sublist_def) metis
  ultimately show "extract_content_id (pre @ ''/p/abc123/'' @ suf) = ''abc123''"
    by (simp add: extract_content_id_def extract_content_id_body_def)
next
  assume a: "\<not> str_in ''/p/'' (pre @ ''/reel/xyz789/?igsh='' @ suf)
     \<and> \<not> str_in ''/reel/'' (pre @ ''/reel'')"
  have "segment_after ''/reel/'' (pre @ ''/reel/'' @ ''xyz789'' @ ''/'' @ (''?igsh='' @ suf))
          = Inr ''xyz789''"
    using a by (intro segment_after_at) simp_all
  moreover have "str_in ''/reel/'' (pre @ ''/reel/xyz789/?igsh='' @ suf)"
    by (simp add: str_in_sublist sublist_def) metis
  ultimately show "extract_content_id (pre @ ''/reel/xyz789/?igsh='' @ suf) = ''xyz789''"
    using a by (simp add: extract_content_id_def extract_content_id_body_def)
next
  assume "\<not> str_in ''/p/'' u \<and> \<not> str_in ''/reel/'' u"
  then show "extract_content_id u = ''unknown''"
    by (simp add: extract_content_id_def extract_content_id_body_def)
qed

theorem extract_content_id_first_marker_witness:
  "\<not> str_in ''/p/'' (''https://www.instagram.com'' @ ''/p'')
   \<and> extract_content_id ''https://www.instagram.com/p/abc123/'' = ''abc123''
   \<and> \<not> str_in ''/p/'' ''https://www.instagram.com/reel/xyz789/?igsh=MzRlODBiNWFlZA==''
   \<and> \<not> str_in ''/reel/'' (''https://www.instagram.com'' @ ''/reel'')
   \<and> extract_content_id ''https://www.instagram.com/reel/xyz789/?igsh=MzRlODBiNWFlZA=='' = ''xyz789''
   \<and> \<not> str_in ''/p/'' ''https://www.instagram.com/natgeo/''
   \<and> \<not> str_in ''/reel/'' ''https://www.instagram.com/natgeo/''
   \<and> extract_content_id ''https://www.instagram.com/natgeo/'' = ''unknown''"
  using extract_content_id_first_marker
      [of "''https://www.instagram.com''" "''''" "''https://www.instagram.com/natgeo/''"]
    extract_content_id_first_marker
      [of "''https://www.instagram.com''" "''MzRlODBiNWFlZA==''" "''https://www.instagram.com/natgeo/''"]
  by simp

section \<open>URL cleaning\<close>

lemma clean_url_eq:
  "clean_url u = Inr (with_slash (before ''?'' (before ''/tagged'' (before ''/comments''
        (before ''/liked_by'' u)))))"
  by (simp add: clean_url_def first_piece_def py_split_first with_slash_def)

lemma endswith_snoc: "endswith (s @ [c]) [c]"
  by (simp add: endswith_def)

lemma with_slash_ends: "endswith (with_slash c) ''/''"
  by (simp add: with_slash_def endswith_snoc)

lemma with_slash_idem: "with_slash (with_slash c) = with_slash c"
  by (simp add: with_slash_def endswith_snoc)

lemma with_slash_free:
  "\<not> str_in sep c \<Longrightarrow> sep \<noteq> [] \<Longrightarrow> last sep \<noteq> CHR ''/'' \<Longrightarrow> \<not> str_in sep (with_slash c)"
  by (simp add: with_slash_def str_in_snoc)

lemma clean_url_idem: "\<exists>n. clean_url u = Inr n \<and> clean_url n = Inr n"
proof -
  define a where "a = before ''/liked_by'' u"
  define b where "b = before ''/comments'' a"
  define c where "c = before ''/tagged'' b"
  define d where "d = before ''?'' c"
  define n where "n = with_slash d"
  have u: "clean_url u = Inr n"
    by (simp add: clean_url_eq a_def b_def c_def d_def n_def)
  have "\<not> str_in ''/liked_by'' a" unfolding a_def by (rule before_free) simp
  then have "\<not> str_in ''/liked_by'' b" unfolding b_def by (rule before_keeps_free) simp
  then have "\<not> str_in ''/liked_by'' c" unfolding c_def by (rule before_keeps_free) simp
  then have "\<not> str_in ''/liked_by'' d" unfolding d_def by (rule before_keeps_free) simp
  then have 1: "\<not> str_in ''/liked_by'' n" unfolding n_def by (rule with_slash_free) simp_all
  have "\<not> str_in ''/comments'' b" unfolding b_def by (rule before_free) simp
  then have "\<not> str_in ''/comments'' c" unfolding c_def by (rule before_keeps_free) simp
  then have "\<not> str_in ''/comments'' d" unfolding d_def by (rule before_keeps_free) simp
  then have 2: "\<not> str_in ''/comments'' n" unfolding n_def by (rule with_slash_free) simp_all
  have "\<not> str_in ''/tagged'' c" unfolding c_def by (rule before_free) simp
  then have "\<not> str_in ''/tagged'' d" unfolding d_def by (rule before_keeps_free) simp
  then have 3: "\<not> str_in ''/tagged'' n" unfolding n_def by (rule with_slash_free) simp_all
  have "\<not> str_in ''?'' d" unfolding d_def by (rule before_free) simp
  then have 4: "\<not> str_in ''?'' n" unfolding n_def by (rule with_slash_free) simp_all
  have "clean_url n = Inr (with_slash n)"
    using 1 2 3 4 by (simp add: clean_url_eq before_id)
  also have "with_slash n = n" by (simp add: n_def with_slash_idem)
  finally show ?thesis using u by blast
qed

text \<open>
  C8: the cleaning step of \<^verbatim>\<open>_get_current_modal_post_url\<close> is idempotent. It returns a
  reference for every address, and cleaning that reference again returns it unchanged.
\<close>

theorem clean_url_idempotent:
  "\<exists>n. clean_url address = Inr n \<and> clean_url n = Inr n"
  by (rule clean_url_idem)

section \<open>Selector fallback\<close>

lemma attempt_run: "attempt env rq w = as_prog (run_strategies env [rq] w)"
  by (auto simp: attempt_def catch_def xbind_def perform_def ret_def fails_def as_prog_def
      split: prod.splits sum.splits)

lemma click_any_run:
  "click_any env t sels w = as_prog (run_strategies env (map (ClickClickable t) sels) w)"
proof (induction sels arbitrary: w)
  case Nil
  show ?case by (simp add: ret_def as_prog_def)
next
  case (Cons s sels)
  show ?case
    by (auto simp: Cons.IH catch_def xbind_def perform_def ret_def fails_def as_prog_def
        split: prod.splits sum.splits)
qed

lemma run_strategies_append:
  "run_strategies env (xs @ ys) w =
     (if fst (run_strategies env xs w) then run_strategies env xs w
      else run_strategies env ys (snd (run_strategies env xs w)))"
  by (induction xs arbitrary: w) auto

lemma click_first_post_run:
  "click_first_post env w = as_prog (run_strategies env first_post_strategies w)"
  by (simp add: click_first_post_def first_post_strategies_def catch_def xbind_def
      click_any_run as_prog_def ret_def)

lemma go_to_next_post_run:
  "go_to_next_post env w = as_prog (run_strategies env next_post_strategies w)"
  unfolding go_to_next_post_def next_post_strategies_def run_strategies_append
  by (simp add: catch_def xbind_def click_any_run attempt_run as_prog_def ret_def)

lemma close_modal_run:
  "close_modal env w = as_prog (run_strategies env close_strategies w)"
  unfolding close_modal_def close_strategies_def run_strategies_append
  by (simp add: catch_def xbind_def click_any_run attempt_run as_prog_def ret_def)

lemma run_all_fail:
  "all_fail env rqs w \<Longrightarrow> run_strategies env rqs w = (False, after env rqs w)"
  by (induction rqs arbitrary: w) auto

lemma run_first_success:
  "all_fail env pre w \<Longrightarrow> \<not> fails env rq (after env pre w) \<Longrightarrow>
   run_strategies env (pre @ rq # post) w = (True, snd (call env rq (after env pre w)))"
  by (induction pre arbitrary: w) auto

lemma fallback_ok_run:
  "(\<And>w. action w = as_prog (run_strategies env strategies w)) \<Longrightarrow>
   fallback_ok env strategies action"
  unfolding fallback_ok_def by (auto simp: as_prog_def run_all_fail run_first_success)

text \<open>
  C4: each selector-fallback action (open the first item, advance to the next, close the
  viewer) returns success when some strategy of its ordered list succeeds after all
  earlier ones failed, returns failure when every strategy fails, and lets no exception
  escape.
\<close>

theorem selector_fallback:
  "fallback_ok env first_post_strategies (click_first_post env)
   \<and> fallback_ok env next_post_strategies (go_to_next_post env)
   \<and> fallback_ok env close_strategies (close_modal env)"
  by (intro conjI fallback_ok_run click_first_post_run go_to_next_post_run close_modal_run)

lemma fails_keyboard_only:
  "fails keyboard_only (ClickClickable t s) w" "\<not> fails keyboard_only (SendKeysBody k) w"
  by (simp_all add: fails_def call_def request_def keyboard_only_def)

lemma fails_dead_browser: "fails dead_browser rq w"
  by (simp add: fails_def call_def request_def dead_browser_def)

theorem selector_fallback_witness:
  "next_post_strategies
     = map (ClickClickable 3) next_button_selectors
         @ SendKeysBody ARROW_RIGHT # [ExecuteScript next_button_script]
   \<and> all_fail keyboard_only (map (ClickClickable 3) next_button_selectors) start
   \<and> \<not> fails keyboard_only (SendKeysBody ARROW_RIGHT)
         (after keyboard_only (map (ClickClickable 3) next_button_selectors) start)
   \<and> fst (go_to_next_post keyboard_only start) = Inr True
   \<and> all_fail dead_browser next_post_strategies start
   \<and> fst (go_to_next_post dead_browser start) = Inr False"
proof -
  let ?pre = "map (ClickClickable 3) next_button_selectors"
  have s: "next_post_strategies = ?pre @ SendKeysBody ARROW_RIGHT # [ExecuteScript next_button_script]"
    by (simp add: next_post_strategies_def)
  have a: "all_fail keyboard_only ?pre start"
    by (simp add: next_button_selectors_def fails_keyboard_only)
  have b: "\<not> fails keyboard_only (SendKeysBody ARROW_RIGHT) (after keyboard_only ?pre start)"
    by (rule fails_keyboard_only)
  have c: "all_fail dead_browser next_post_strategies start"
    by (simp add: next_post_strategies_def next_button_selectors_def fails_dead_browser)
  have k: "fallback_ok keyboard_only next_post_strategies (go_to_next_post keyboard_only)"
    and d: "fallback_ok dead_browser next_post_strategies (go_to_next_post dead_browser)"
    using selector_fallback by blast+
  from k s a b have "fst (go_to_next_post keyboard_only start) = Inr True"
    unfolding fallback_ok_def by blast
  moreover from d c have "fst (go_to_next_post dead_browser start) = Inr False"
    unfolding fallback_ok_def by blast
  ultimately show ?thesis using s a b c by blast
qed

section \<open>Runs inside a profile\<close>

lemma inside_refl: "inside w w"
  by (simp add: inside_def)

lemma inside_trans: "inside w w1 \<Longrightarrow> inside w1 w2 \<Longrightarrow> inside w w2"
  by (auto simp: inside_def)

lemma inside_request: "rq \<noteq> profile_delay \<Longrightarrow> inside w (snd (request env rq w))"
  by (simp add: inside_def request_def split: prod.splits)

lemma local_ret: "local_prog (ret a)"
  by (simp add: local_prog_def ret_def inside_refl)

lemma local_raise: "local_prog (raise e)"
  by (simp add: local_prog_def raise_def inside_refl)

lemma local_lift: "local_prog (lift r)"
  by (simp add: local_prog_def lift_def inside_refl)

lemma local_xbind:
  assumes "local_prog m" "\<And>a. local_prog (f a)"
  shows "local_prog (xbind m f)"
  unfolding local_prog_def
proof
  fix w
  obtain r w1 where m: "m w = (r, w1)" by (cases "m w")
  with assms(1) have 1: "inside w w1" by (auto simp: local_prog_def dest: spec [of _ w])
  show "inside w (snd (xbind m f w))"
  proof (cases r)
    case (Inl e)
    with m 1 show ?thesis by (simp add: xbind_def)
  next
    case (Inr a)
    from assms(2) have "inside w1 (snd (f a w1))" by (simp add: local_prog_def)
    with 1 m Inr show ?thesis by (auto simp: xbind_def intro: inside_trans)
  qed
qed

lemma local_catch:
  assumes "local_prog m" "\<And>e. local_prog (h e)"
  shows "local_prog (catch m h)"
  unfolding local_prog_def
proof
  fix w
  obtain r w1 where m: "m w = (r, w1)" by (cases "m w")
  with assms(1) have 1: "inside w w1" by (auto simp: local_prog_def dest: spec [of _ w])
  show "inside w (snd (catch m h w))"
  proof (cases r)
    case (Inl e)
    from assms(2) have "inside w1 (snd (h e w1))" by (simp add: local_prog_def)
    with 1 m Inl show ?thesis by (auto simp: catch_def intro: inside_trans)
  next
    case (Inr a)
    with m 1 show ?thesis by (simp add: catch_def)
  qed
qed

lemma local_if:
  "(c \<Longrightarrow> local_prog a) \<Longrightarrow> (\<not> c \<Longrightarrow> local_prog b) \<Longrightarrow> local_prog (if c then a else b)"
  by simp

lemma local_catch_timeout: "local_prog m \<Longrightarrow> local_prog h \<Longrightarrow> local_prog (catch_timeout m h)"
  unfolding catch_timeout_def by (intro local_catch local_if local_raise)

lemma snd_call: "snd (call env rq w) = snd (request env rq w)"
  by (simp add: call_def split: prod.splits response.splits)

lemma local_call: "rq \<noteq> profile_delay \<Longrightarrow> local_prog (call env rq)"
  by (simp add: local_prog_def snd_call inside_request)

lemma local_perform: "rq \<noteq> profile_delay \<Longrightarrow> local_prog (perform env rq)"
  unfolding perform_def by (intro local_xbind local_call local_ret)

lemma local_current_url: "local_prog (current_url env)"
  unfolding current_url_def
  by (intro local_xbind local_call) (simp_all add: profile_delay_def local_ret local_raise split: response.splits)

lemma local_sleep: "Sleep lo hi \<noteq> profile_delay \<Longrightarrow> local_prog (sleep env lo hi)"
  by (simp add: local_prog_def sleep_def inside_request)

lemma snd_now: "snd (now env w) = snd (request env Now w)"
  by (simp add: now_def split: prod.splits)


lemma local_now: "local_prog (now env)"
  by (simp add: local_prog_def snd_now profile_delay_def inside_request)


lemma local_click_any: "local_prog (click_any env t sels)"
  by (induction sels)
     (auto intro!: local_ret local_catch local_xbind local_perform simp: profile_delay_def)

lemma local_attempt: "rq \<noteq> profile_delay \<Longrightarrow> local_prog (attempt env rq)"
  unfolding attempt_def by (intro local_catch local_xbind local_perform local_ret)

lemma local_click_first_post: "local_prog (click_first_post env)"
  unfolding click_first_post_def
  by (intro local_catch local_xbind local_click_any local_if local_ret)

lemma local_go_to_next_post: "local_prog (go_to_next_post env)"
  unfolding go_to_next_post_def
  by (intro local_catch local_xbind local_click_any local_if local_ret local_attempt)
     (simp_all add: profile_delay_def)

lemma local_close_modal: "local_prog (close_modal env)"
  unfolding close_modal_def
  by (intro local_catch local_xbind local_click_any local_if local_ret local_attempt)
     (simp_all add: profile_delay_def)

lemma local_get_current_modal_post_url: "local_prog (get_current_modal_post_url env)"
  unfolding get_current_modal_post_url_def
  by (intro local_catch local_xbind local_current_url local_if local_ret local_lift)

lemma local_collect_post: "local_prog (collect_post env cur collected)"
  unfolding collect_post_def
  by (cases cur) (auto intro!: local_ret local_xbind local_now)

lemma inside_prog: "local_prog m \<Longrightarrow> m w = (r, w') \<Longrightarrow> inside w w'"
  by (auto simp: local_prog_def dest: spec [of _ w])

lemma settle_not_delay: "Sleep (3 / 2) (5 / 2) \<noteq> profile_delay"
  by (simp add: profile_delay_def PROFILE_DELAY_MIN_def)

lemma inside_navigate_step: "inside w (snd (navigate_step env n collected w))"
proof -
  obtain r1 w1 where g: "get_current_modal_post_url env w = (r1, w1)"
    by (cases "get_current_modal_post_url env w")
  then have 1: "inside w w1"
    by (rule inside_prog [OF local_get_current_modal_post_url])
  show ?thesis
  proof (cases r1)
    case (Inl e)
    with g 1 show ?thesis by (simp add: navigate_step_def)
  next
    case cur: (Inr current_post_url)
    obtain r2 w2 where c: "collect_post env current_post_url collected w1 = (r2, w2)"
      by (cases "collect_post env current_post_url collected w1")
    then have "inside w1 w2" by (rule inside_prog [OF local_collect_post])
    with 1 have 2: "inside w w2" by (rule inside_trans)
    show ?thesis
    proof (cases r2)
      case (Inl e)
      with g cur c 2 show ?thesis by (simp add: navigate_step_def)
    next
      case ps: (Inr ps)
      obtain r3 w3 where n: "go_to_next_post env w2 = (r3, w3)"
        by (cases "go_to_next_post env w2")
      then have "inside w2 w3" by (rule inside_prog [OF local_go_to_next_post])
      with 2 have 3: "inside w w3" by (rule inside_trans)
      have "inside w3 (snd (sleep env (3 / 2) (5 / 2) w3))"
        by (simp add: sleep_def inside_request settle_not_delay)
      with 3 have 4: "inside w (snd (sleep env (3 / 2) (5 / 2) w3))" by (rule inside_trans)
      show ?thesis
        using g cur c ps n 2 3 4 by (cases r3) (simp_all add: navigate_step_def)
    qed
  qed
qed

lemma inside_navigate_loop: "inside w (snd (navigate_loop env n m a collected w))"
proof (induction env n m a collected w rule: navigate_loop.induct)
  case (1 env num_posts max_attempts attempts posts_data w)
  show ?case
  proof (cases "int (length posts_data) < num_posts \<and> attempts < max_attempts")
    case False
    then have "navigate_loop env num_posts max_attempts attempts posts_data w = (posts_data, w)"
      by (subst navigate_loop.simps) auto
    then show ?thesis by (simp add: inside_refl)
  next
    case True
    obtain collected go_on w' where s: "navigate_step env num_posts posts_data w = ((collected, go_on), w')"
      by (metis surj_pair)
    have i: "inside w w'" using inside_navigate_step [of w env num_posts posts_data] s by simp
    have unfold: "navigate_loop env num_posts max_attempts attempts posts_data w =
        (if go_on then navigate_loop env num_posts max_attempts (attempts + 1) collected w'
         else (collected, w'))"
      using True s by (subst navigate_loop.simps) simp
    show ?thesis
    proof (cases go_on)
      case False
      with unfold i show ?thesis by simp
    next
      case go: True
      from "1.IH" [OF True s [symmetric] refl go] i unfold go
      show ?thesis by (auto intro: inside_trans)
    qed
  qed
qed

lemma local_navigate_posts_via_arrows: "local_prog (navigate_posts_via_arrows env n)"
  unfolding local_prog_def
proof
  fix w
  have "snd (navigate_posts_via_arrows env n w) = snd (navigate_loop env n (n + 2) 0 [] w)"
    by (simp add: navigate_posts_via_arrows_def split: prod.splits)
  then show "inside w (snd (navigate_posts_via_arrows env n w))"
    by (simp add: inside_navigate_loop)
qed



lemma modal_load_not_delay: "Sleep 2 3 \<noteq> profile_delay"
  by (simp add: profile_delay_def PROFILE_DELAY_MIN_def)



section \<open>Modal navigation\<close>

lemma get_current_modal_post_url_result:
  "\<exists>v. fst (get_current_modal_post_url env w) = Inr v \<and> (\<forall>c. v = Some c \<longrightarrow> cleaned c)"
  by (auto simp: get_current_modal_post_url_def catch_def xbind_def ret_def lift_def cleaned_def
      split: prod.splits sum.splits)

lemma collect_post_result:
  "\<forall>c. cur = Some c \<longrightarrow> cleaned c \<Longrightarrow>
   \<exists>collected'. fst (collect_post env cur collected w) = Inr collected' \<and> (collected' = collected \<or> appended collected collected')"
  by (auto simp: collect_post_def xbind_def ret_def now_def appended_def
      split: prod.splits sum.splits option.splits)

lemma navigate_step_result:
  assumes "navigate_step env n collected w = ((collected', go), w')"
  shows "collected' = collected \<or> appended collected collected'"
proof -
  obtain v w1 where v: "get_current_modal_post_url env w = (Inr v, w1)" "\<forall>c. v = Some c \<longrightarrow> cleaned c"
    using get_current_modal_post_url_result [of env w] by (metis fst_conv surj_pair)
  obtain ps w2 where ps: "collect_post env v collected w1 = (Inr ps, w2)" "ps = collected \<or> appended collected ps"
    using collect_post_result [OF v(2), of env collected w1] by (metis fst_conv surj_pair)
  from assms v(1) ps(1) have "collected' = ps"
    by (auto simp: navigate_step_def split: if_splits prod.splits sum.splits)
  with ps(2) show ?thesis by simp
qed

lemma appended_length: "appended collected collected' \<Longrightarrow> length collected' = Suc (length collected)"
  by (auto simp: appended_def)

lemma navigate_loop_invariant:
  assumes step: "\<And>collected collected'. P collected \<Longrightarrow> appended collected collected' \<Longrightarrow> P collected'"
  shows "P collected \<Longrightarrow> int (length collected) \<le> n \<Longrightarrow>
         P (fst (navigate_loop env n m a collected w))
         \<and> int (length (fst (navigate_loop env n m a collected w))) \<le> n"
proof (induction env n m a collected w rule: navigate_loop.induct)
  case (1 env num_posts max_attempts attempts posts_data w)
  show ?case
  proof (cases "int (length posts_data) < num_posts \<and> attempts < max_attempts")
    case False
    then have "navigate_loop env num_posts max_attempts attempts posts_data w = (posts_data, w)"
      by (subst navigate_loop.simps) auto
    with "1.prems" show ?thesis by simp
  next
    case True
    obtain collected go_on w' where s: "navigate_step env num_posts posts_data w = ((collected, go_on), w')"
      by (metis surj_pair)
    from navigate_step_result [OF s] have "collected = posts_data \<or> appended posts_data collected" .
    with "1.prems" True step have P: "P collected" and len: "int (length collected) \<le> num_posts"
      by (auto dest: appended_length)
    have unfold: "navigate_loop env num_posts max_attempts attempts posts_data w =
        (if go_on then navigate_loop env num_posts max_attempts (attempts + 1) collected w'
         else (collected, w'))"
      using True s by (subst navigate_loop.simps) simp
    show ?thesis
    proof (cases go_on)
      case False
      with unfold P len show ?thesis by simp
    next
      case go: True
      from "1.IH" [OF True s [symmetric] refl go P len] unfold go
      show ?thesis by simp
    qed
  qed
qed

lemma navigate_posts_via_arrows_loop:
  "navigate_posts_via_arrows env n w =
     (Inr (fst (navigate_loop env n (n + 2) 0 [] w)), snd (navigate_loop env n (n + 2) 0 [] w))"
  by (simp add: navigate_posts_via_arrows_def split: prod.splits)

lemma scrape_posts_eq:
  "scrape_posts_via_modal_navigation env user n w =
     (case run_strategies env first_post_strategies w of
        (clicked, w1) \<Rightarrow>
          if \<not> clicked then (Inr [], w1)
          else (case navigate_posts_via_arrows env n (snd (sleep env 2 3 w1)) of
                  (collected, w3) \<Rightarrow> (collected, snd (run_strategies env close_strategies w3))))"
  by (simp add: scrape_posts_via_modal_navigation_def modal_traversal_def catch_def xbind_def
      ret_def click_first_post_run close_modal_run as_prog_def sleep_def
      navigate_posts_via_arrows_loop split: prod.splits)

lemma numbered_append:
  "map order collected = [1..int (length collected)] \<Longrightarrow> appended collected collected' \<Longrightarrow>
   map order collected' = [1..int (length collected')]"
proof -
  assume n: "map order collected = [1..int (length collected)]" and a: "appended collected collected'"
  have "[1..int (length collected) + 1] = [1..int (length collected)] @ [int (length collected) + 1]"
    by (subst upto_rec2) simp_all
  with n a show ?thesis by (auto simp: appended_def add.commute)
qed

lemma distinct_append:
  "distinct (map content_url collected) \<Longrightarrow> appended collected collected' \<Longrightarrow>
   distinct (map content_url collected')"
  by (auto simp: appended_def)

lemma navigate_ordered_unique:
  assumes "0 \<le> n"
  shows "ordered_unique n (fst (navigate_loop env n (n + 2) 0 [] w))"
proof -
  let ?P = "\<lambda>collected. map order collected = [1..int (length collected)] \<and> distinct (map content_url collected)"
  have "?P (fst (navigate_loop env n (n + 2) 0 [] w))
      \<and> int (length (fst (navigate_loop env n (n + 2) 0 [] w))) \<le> n"
    using assms by (intro navigate_loop_invariant) (auto intro: numbered_append distinct_append)
  then show ?thesis by (simp add: ordered_unique_def)
qed

text \<open>
  C1: for every requested count \<open>N \<ge> 0\<close>, the traversal (\<^verbatim>\<open>_navigate_posts_via_arrows\<close>,
  and \<^verbatim>\<open>scrape_posts_via_modal_navigation\<close> around it) returns at most \<open>N\<close> records,
  whose \<open>order\<close> fields are 1, 2, ..., in sequence, with no \<open>content_url\<close> twice. It
  holds for every behaviour of the browser.
\<close>

theorem modal_navigation_ordered_unique:
  "0 \<le> num_posts \<Longrightarrow>
   (\<exists>collected. fst (navigate_posts_via_arrows env num_posts w) = Inr collected
      \<and> ordered_unique num_posts collected)
   \<and> (\<exists>collected. fst (scrape_posts_via_modal_navigation env user num_posts w) = Inr collected
      \<and> ordered_unique num_posts collected)"
proof -
  assume n: "0 \<le> num_posts"
  have nav: "\<exists>collected. fst (navigate_posts_via_arrows env num_posts v) = Inr collected
      \<and> ordered_unique num_posts collected" for v
    using n by (simp add: navigate_posts_via_arrows_loop navigate_ordered_unique)
  obtain clicked w1 where c: "run_strategies env first_post_strategies w = (clicked, w1)"
    by (cases "run_strategies env first_post_strategies w")
  have "\<exists>collected. fst (scrape_posts_via_modal_navigation env user num_posts w) = Inr collected
      \<and> ordered_unique num_posts collected"
  proof (cases clicked)
    case False
    with c n show ?thesis by (simp add: scrape_posts_eq ordered_unique_def)
  next
    case True
    with c have "fst (scrape_posts_via_modal_navigation env user num_posts w)
        = fst (navigate_posts_via_arrows env num_posts (snd (sleep env 2 3 w1)))"
      by (simp add: scrape_posts_eq split: prod.splits)
    with nav show ?thesis by simp
  qed
  with nav show ?thesis by blast
qed

text \<open>The equations that run the traversal on a concrete browser.\<close>

lemmas run_simps = navigate_posts_via_arrows_def navigate_loop.simps navigate_step_def
      get_current_modal_post_url_def collect_post_def go_to_next_post_def
      catch_def xbind_def ret_def lift_def raise_def current_url_def call_def request_def
      perform_def attempt_def now_def sleep_def text_of_def 
      gallery_def showing_def tour_def clean_url_eq before_def with_slash_def endswith_def next_button_selectors_def first_post_selectors_def extract_content_id_def extract_content_id_body_def segment_after_def py_split.simps py_index_def

theorem modal_navigation_ordered_unique_witness:
  "(0::int) \<le> 2
   \<and> ordered_unique 2 (fst (navigate_loop gallery 2 4 0 [] (showing tour)))
   \<and> map content_url (fst (navigate_loop gallery 2 4 0 [] (showing tour)))
       = [''https://www.instagram.com/p/Cx1/'', ''https://www.instagram.com/p/Cx2/'']
   \<and> (\<exists>collected. fst (navigate_posts_via_arrows gallery 2 (showing tour)) = Inr collected
      \<and> ordered_unique 2 collected)
   \<and> (\<exists>collected. fst (scrape_posts_via_modal_navigation gallery ''natgeo'' 2 (showing tour)) = Inr collected
      \<and> ordered_unique 2 collected)"
proof -
  have n: "(0::int) \<le> 2" by simp
  have u: "map content_url (fst (navigate_loop gallery 2 4 0 [] (showing tour)))
       = [''https://www.instagram.com/p/Cx1/'', ''https://www.instagram.com/p/Cx2/'']"
    by (simp add: run_simps)
  from modal_navigation_ordered_unique [OF n, of gallery "showing tour" "''natgeo''"] u
  show ?thesis by (simp add: navigate_posts_via_arrows_loop)
qed

text \<open>
  C10: every record appended by the modal traversal has a \<open>content_url\<close> that contains
  \<^verbatim>\<open>/p/\<close> and ends with \<^verbatim>\<open>/\<close>. The code breaks it. The reader tests the marker on the
  address of the browser and only then cuts at \<^verbatim>\<open>/liked_by\<close>, \<^verbatim>\<open>/comments\<close>,
  \<^verbatim>\<open>/tagged\<close> and \<^verbatim>\<open>?\<close>, which can cut the marker off. For the three posts of a
  profile named \<^verbatim>\<open>tagged_user\<close> the traversal returns one record, whose \<open>content_url\<close>
  is the root of the site and whose \<open>content_id\<close> is \<^verbatim>\<open>unknown\<close>: the second and the
  third post are dropped as duplicates of it.
\<close>

theorem tagged_profile_posts_collapse:
  "fst (navigate_posts_via_arrows gallery 3
          (showing [''https://www.instagram.com/tagged_user/p/Cx1/'',
                    ''https://www.instagram.com/tagged_user/p/Cx2/'',
                    ''https://www.instagram.com/tagged_user/p/Cx3/'']))
     = Inr [\<lparr>content_url = ''https://www.instagram.com/'',
              content_id = ''unknown'', scraped_at = ''2024-05-01T10:00:00'',
              content_type = ''post'', order = 1\<rparr>]
   \<and> str_in ''/p/'' ''https://www.instagram.com/tagged_user/p/Cx1/''
   \<and> clean_url ''https://www.instagram.com/tagged_user/p/Cx1/''
       = Inr ''https://www.instagram.com/''
   \<and> \<not> str_in ''/p/'' ''https://www.instagram.com/''"
  by (simp add: run_simps)

text \<open>
  The same for a login redirect that carries the post in its query: the record is the
  login page.
\<close>

lemma login_wall_record:
  "fst (navigate_posts_via_arrows gallery 1
          (showing [''https://www.instagram.com/accounts/login/?next=/p/abc123/'']))
     = Inr [\<lparr>content_url = ''https://www.instagram.com/accounts/login/'',
              content_id = ''unknown'', scraped_at = ''2024-05-01T10:00:00'',
              content_type = ''post'', order = 1\<rparr>]
   \<and> \<not> str_in ''/p/'' ''https://www.instagram.com/accounts/login/''"
  by (simp add: run_simps)

section \<open>Closing the viewer\<close>

lemma trace_call: "trace (snd (call env rq w)) = trace w @ [rq]"
  by (simp add: snd_call request_def split: prod.splits)

lemma run_strategies_trace:
  "\<exists>k. trace (snd (run_strategies env rqs w)) = trace w @ take k rqs \<and> (rqs \<noteq> [] \<longrightarrow> 0 < k)"
proof (induction rqs arbitrary: w)
  case Nil
  show ?case by simp
next
  case (Cons rq rqs)
  show ?case
  proof (cases "fails env rq w")
    case True
    from Cons [of "snd (call env rq w)"] obtain k where
      "trace (snd (run_strategies env rqs (snd (call env rq w)))) = trace w @ rq # take k rqs"
      by (auto simp: trace_call)
    with True have "trace (snd (run_strategies env (rq # rqs) w)) = trace w @ take (Suc k) (rq # rqs)"
      by simp
    then show ?thesis by blast
  next
    case False
    then have "trace (snd (run_strategies env (rq # rqs) w)) = trace w @ take (Suc 0) (rq # rqs)"
      by (simp add: trace_call)
    then show ?thesis by blast
  qed
qed

lemma close_invoked_later:
  "inside w w1 \<Longrightarrow> close_invoked w1 w2 \<Longrightarrow> inside w1 w2 \<Longrightarrow> close_invoked w w2"
  by (auto simp: inside_def close_invoked_def)

lemma close_invoked_earlier:
  "close_invoked w w1 \<Longrightarrow> inside w1 w2 \<Longrightarrow> inside w w1 \<Longrightarrow> close_invoked w w2"
  by (auto simp: inside_def close_invoked_def)

lemma close_strategies_invoked:
  "close_invoked w (snd (run_strategies env close_strategies w))"
proof -
  obtain k where k: "trace (snd (run_strategies env close_strategies w)) = trace w @ take k close_strategies"
    "0 < k"
    using run_strategies_trace [of env close_strategies w] by (auto simp: close_strategies_def)
  then obtain j where "k = Suc j" by (cases k) auto
  with k show ?thesis by (simp add: close_invoked_def close_strategies_def close_selectors_def)
qed

lemma first_post_strategies_no_close:
  "\<not> close_invoked w (snd (run_strategies env first_post_strategies w))"
proof -
  obtain k where "trace (snd (run_strategies env first_post_strategies w)) = trace w @ take k first_post_strategies"
    using run_strategies_trace [of env first_post_strategies w] by auto
  moreover have "hd close_strategies \<notin> set first_post_strategies"
    by (simp add: close_strategies_def first_post_strategies_def close_selectors_def first_post_selectors_def)
  ultimately show ?thesis
    by (auto simp: close_invoked_def dest: in_set_takeD)
qed

lemma close_after_error_eq:
  "close_after_error env collected w = (Inr collected, snd (run_strategies env close_strategies w))"
  by (simp add: close_after_error_def close_quietly_def catch_def xbind_def ret_def
      close_modal_run as_prog_def)

text \<open>
  C2, amended: \<^verbatim>\<open>scrape_posts_via_modal_navigation\<close> invokes the close-viewer action
  exactly when the open-first-item action succeeded (then on every path, before it
  returns); when opening fails it returns the empty sequence without closing. Its
  exception handler invokes the close-viewer action as well.
\<close>

theorem close_iff_opened:
  "close_invoked w (snd (scrape_posts_via_modal_navigation env user num_posts w))
     = (fst (click_first_post env w) = Inr True)
   \<and> close_invoked w (snd (close_after_error env posts_data w))"
proof -
  obtain clicked w1 where c: "run_strategies env first_post_strategies w = (clicked, w1)"
    by (cases "run_strategies env first_post_strategies w")
  have f: "fst (click_first_post env w) = Inr clicked"
    using c by (simp add: click_first_post_run as_prog_def)
  have i1: "inside w w1"
    using inside_prog [OF local_click_first_post, of env w] c
    by (simp add: click_first_post_run as_prog_def)
  have "close_invoked w (snd (scrape_posts_via_modal_navigation env user num_posts w)) = clicked"
  proof (cases clicked)
    case False
    with c have "snd (scrape_posts_via_modal_navigation env user num_posts w) = w1"
      by (simp add: scrape_posts_eq)
    with first_post_strategies_no_close [of w env] c False show ?thesis by simp
  next
    case True
    let ?w2 = "snd (sleep env 2 3 w1)"
    obtain collected w3 where n: "navigate_posts_via_arrows env num_posts ?w2 = (collected, w3)"
      by (cases "navigate_posts_via_arrows env num_posts ?w2")
    let ?w4 = "snd (run_strategies env close_strategies w3)"
    have e: "snd (scrape_posts_via_modal_navigation env user num_posts w) = ?w4"
      using c True n by (simp add: scrape_posts_eq)
    have "inside w1 ?w2" by (simp add: sleep_def inside_request modal_load_not_delay)
    moreover have "inside ?w2 w3"
      using n by (rule inside_prog [OF local_navigate_posts_via_arrows])
    ultimately have i3: "inside w w3" using i1 by (blast intro: inside_trans)
    have i4: "inside w3 ?w4"
      using inside_prog [OF local_close_modal, of env w3]
      by (simp add: close_modal_run as_prog_def)
    from close_invoked_later [OF i3 close_strategies_invoked i4] e True
    show ?thesis by simp
  qed
  with f have "close_invoked w (snd (scrape_posts_via_modal_navigation env user num_posts w))
     = (fst (click_first_post env w) = Inr True)" by simp
  moreover have "close_invoked w (snd (close_after_error env posts_data w))"
    by (simp add: close_after_error_eq close_strategies_invoked)
  ultimately show ?thesis by simp
qed

text \<open>
  C2, as stated: the close-viewer action is invoked on every exit path, also when the
  open-first-item action fails. In a browser where nothing can be clicked the function
  returns after the three open strategies, and none of its requests is a close request.
\<close>

theorem no_close_when_not_opened:
  "fst (click_first_post dead_browser start) = Inr False
   \<and> fst (scrape_posts_via_modal_navigation dead_browser ''natgeo'' 3 start) = Inr []
   \<and> trace (snd (scrape_posts_via_modal_navigation dead_browser ''natgeo'' 3 start))
       = first_post_strategies
   \<and> \<not> close_invoked start (snd (scrape_posts_via_modal_navigation dead_browser ''natgeo'' 3 start))"
  by (simp add: scrape_posts_eq click_first_post_run as_prog_def first_post_strategies_def
      first_post_selectors_def close_invoked_def close_strategies_def close_selectors_def
      fails_dead_browser snd_call request_def dead_browser_def start_def)

section \<open>Floats\<close>

lemma bit_length_bounds:
  "0 < n \<Longrightarrow> 0 < bit_length n \<and> 2 ^ nat (bit_length n - 1) \<le> n \<and> n < 2 ^ nat (bit_length n)"
proof (induction n rule: bit_length.induct)
  case (1 n)
  show ?case
  proof (cases "n = 1")
    case True
    have "bit_length 1 = 1" by (simp add: bit_length.simps [of 1] bit_length.simps [of 0])
    with True show ?thesis by simp
  next
    case False
    with "1.prems" have h: "0 < n div 2" by simp
    with "1.IH" "1.prems" have ih: "0 < bit_length (n div 2)"
      "2 ^ nat (bit_length (n div 2) - 1) \<le> n div 2" "n div 2 < 2 ^ nat (bit_length (n div 2))"
      by auto
    have b: "bit_length n = 1 + bit_length (n div 2)"
      using "1.prems" by (subst bit_length.simps) simp
    have e: "nat (bit_length n - 1) = Suc (nat (bit_length (n div 2) - 1))"
      "nat (bit_length n) = Suc (nat (bit_length (n div 2)))"
      using ih(1) b by auto
    have "2 * (n div 2) \<le> n" "n < 2 * (n div 2) + 2" by presburger+
    with ih b show ?thesis unfolding e by auto
  qed
qed

lemma pow2_pos: "0 < pow2 n"
  by (simp add: pow2_def)

lemma pow2_mono: "a \<le> b \<Longrightarrow> pow2 a \<le> pow2 b"
proof -
  assume ab: "a \<le> b"
  have p: "pow2 n = 2 powi n" for n
    by (simp add: pow2_def power_int_def inverse_eq_divide power_one_over)
  show ?thesis unfolding p using ab by (intro power_int_increasing) simp_all
qed

lemma pow2_ilog2_le:
  assumes "x \<noteq> 0"
  shows "pow2 (ilog2 x) \<le> \<bar>x\<bar>"
proof (cases "1 \<le> \<bar>x\<bar>")
  case True
  then have n: "0 < \<lfloor>\<bar>x\<bar>\<rfloor>" by linarith
  from bit_length_bounds [OF n] have "0 \<le> bit_length \<lfloor>\<bar>x\<bar>\<rfloor> - 1"
    "(2::int) ^ nat (bit_length \<lfloor>\<bar>x\<bar>\<rfloor> - 1) \<le> \<lfloor>\<bar>x\<bar>\<rfloor>" by auto
  then have "pow2 (bit_length \<lfloor>\<bar>x\<bar>\<rfloor> - 1) \<le> of_int \<lfloor>\<bar>x\<bar>\<rfloor>"
    by (simp add: pow2_def)
  also have "\<dots> \<le> \<bar>x\<bar>" by simp
  finally show ?thesis using True by (simp add: ilog2_def)
next
  case False
  let ?y = "1 / \<bar>x\<bar>"
  from False assms have y: "1 < ?y" by simp
  then have c: "0 < \<lceil>?y\<rceil> - 1" by linarith
  let ?j = "bit_length (\<lceil>?y\<rceil> - 1)"
  from bit_length_bounds [OF c] have j: "0 < ?j" "\<lceil>?y\<rceil> - 1 < 2 ^ nat ?j" by auto
  then have "\<lceil>?y\<rceil> \<le> 2 ^ nat ?j" by simp
  then have "of_int \<lceil>?y\<rceil> \<le> (2::rat) ^ nat ?j"
    by (metis of_int_le_iff of_int_numeral of_int_power)
  moreover have "?y \<le> of_int \<lceil>?y\<rceil>" by simp
  ultimately have "?y \<le> 2 ^ nat ?j" by linarith
  then have "1 / 2 ^ nat ?j \<le> \<bar>x\<bar>"
    using assms by (simp add: field_simps)
  then show ?thesis using False j(1) by (simp add: ilog2_def pow2_def)
qed

lemma round_half_even_near: "\<bar>of_int (round_half_even x) - x\<bar> \<le> 1 / 2"
proof -
  have "of_int \<lfloor>x\<rfloor> \<le> x" "x < of_int \<lfloor>x\<rfloor> + 1" by linarith+
  then show ?thesis by (auto simp: round_half_even_def)
qed

lemma to_double_bounded:
  assumes "\<bar>x\<bar> \<le> 2 ^ 1000"
  shows "\<exists>r. to_double x = Finite r \<and> \<bar>r\<bar> \<le> 2 * \<bar>x\<bar> + 1"
proof (cases "x = 0")
  case True
  then show ?thesis by (simp add: to_double_def)
next
  case False
  define u where "u = max (ilog2 x - 52) (- 1074)"
  define m where "m = round_half_even (x / pow2 u)"
  define r where "r = of_int m * pow2 u"
  have "pow2 (ilog2 x - 52) \<le> pow2 (ilog2 x)" by (rule pow2_mono) simp
  with pow2_ilog2_le [OF False] have 1: "pow2 (ilog2 x - 52) \<le> \<bar>x\<bar>" by simp
  have "pow2 (- 1074) \<le> pow2 0" by (rule pow2_mono) simp
  then have 2: "pow2 (- 1074) \<le> 1" by (simp add: pow2_def)
  have u: "pow2 u \<le> \<bar>x\<bar> + 1"
    using 1 2 by (cases "ilog2 x - 52 \<le> - 1074") (simp_all add: u_def max_def)
  have "\<bar>of_int m - x / pow2 u\<bar> * pow2 u \<le> 1 / 2 * pow2 u"
    unfolding m_def using round_half_even_near [of "x / pow2 u"] pow2_pos [of u]
    by (intro mult_right_mono) simp_all
  moreover have "\<bar>of_int m - x / pow2 u\<bar> * pow2 u = \<bar>r - x\<bar>"
  proof -
    have "(of_int m - x / pow2 u) * pow2 u = r - x"
      using pow2_pos [of u] by (simp add: r_def field_simps)
    then have "\<bar>r - x\<bar> = \<bar>of_int m - x / pow2 u\<bar> * \<bar>pow2 u\<bar>"
      by (simp only: abs_mult [symmetric])
    then show ?thesis using pow2_pos [of u] by simp
  qed
  ultimately have "\<bar>r - x\<bar> \<le> 1 / 2 * pow2 u" by simp
  with u have b: "\<bar>r\<bar> \<le> 2 * \<bar>x\<bar> + 1" by linarith
  have e: "ilog2 x \<le> 1000"
  proof (rule ccontr)
    assume "\<not> ilog2 x \<le> 1000"
    then have "pow2 1001 \<le> pow2 (ilog2 x)" by (intro pow2_mono) simp
    also have "\<dots> \<le> \<bar>x\<bar>" by (rule pow2_ilog2_le [OF False])
    finally have "(2::rat) ^ 1001 \<le> 2 ^ 1000" using assms by (simp add: pow2_def)
    then show False by simp
  qed
  then have "\<not> 1024 \<le> ilog2 x + (if 2 ^ 53 \<le> \<bar>m\<bar> then 1 else 0)" by simp
  with False b show ?thesis
    by (simp add: to_double_def Let_def r_def m_def u_def)
qed

lemma int_truediv_fraction:
  assumes "0 < t" "s \<le> t"
  shows "\<exists>q. int_truediv (int s) (int t) = Inr (Finite q) \<and> \<bar>q\<bar> \<le> 3"
proof -
  let ?x = "of_int (int s) / of_int (int t) :: rat"
  have le: "\<bar>?x\<bar> \<le> 1" using assms by simp
  then have "\<bar>?x\<bar> \<le> 2 ^ 1000" by (rule order_trans) simp
  from to_double_bounded [OF this] obtain q where
    q: "to_double ?x = Finite q" "\<bar>q\<bar> \<le> 2 * \<bar>?x\<bar> + 1" by auto
  from q(2) le have "\<bar>q\<bar> \<le> 3" by linarith
  with q(1) assms(1) show ?thesis by (simp add: int_truediv_def)
qed

lemma success_rate_parts:
  assumes "0 < t" "s \<le> t"
  shows "\<exists>q x k. int_truediv (int s) (int t) = Inr (Finite q)
     \<and> float_mul (Finite q) (Finite 100) = Finite x
     \<and> \<bar>of_int k / 100 - x\<bar> \<le> 1 / 200
     \<and> success_rate_of s t = Inr (to_double (of_int k / 100))"
proof -
  from int_truediv_fraction [OF assms] obtain q where
    q: "int_truediv (int s) (int t) = Inr (Finite q)" "\<bar>q\<bar> \<le> 3" by auto
  have "\<bar>q * 100\<bar> \<le> 300" using q(2) by (simp add: abs_mult)
  then have "\<bar>q * 100\<bar> \<le> 2 ^ 1000" by (rule order_trans) simp
  from to_double_bounded [OF this] obtain x where x: "to_double (q * 100) = Finite x" by auto
  have "\<bar>of_int (round_half_even (x * 100)) - x * 100\<bar> \<le> 1 / 2"
    by (rule round_half_even_near)
  then have "\<bar>of_int (round_half_even (x * 100)) / 100 - x\<bar> \<le> 1 / 200"
    by (simp add: field_simps abs_le_iff)
  moreover have "success_rate_of s t = Inr (to_double (of_int (round_half_even (x * 100)) / 100))"
    using assms(1) q(1) x by (simp add: success_rate_of_def)
  ultimately show ?thesis using q(1) x by auto
qed

lemma success_rate_returns: "s \<le> t \<Longrightarrow> \<exists>r. success_rate_of s t = Inr r"
  using success_rate_parts [of t s] by (cases "t = 0") (auto simp: success_rate_of_def)

section \<open>Programs that never raise\<close>

lemma never_raises_ret: "never_raises (ret a)"
  by (simp add: never_raises_def ret_def)

lemma never_raises_xbind:
  assumes "never_raises m" "\<And>a. never_raises (f a)"
  shows "never_raises (xbind m f)"
  unfolding never_raises_def
proof
  fix w
  obtain a where a: "fst (m w) = Inr a" using assms(1) by (auto simp: never_raises_def)
  obtain b where "fst (f a (snd (m w))) = Inr b" using assms(2) by (auto simp: never_raises_def)
  with a show "\<exists>b. fst (xbind m f w) = Inr b"
    by (cases "m w") (simp add: xbind_def)
qed

lemma never_raises_catch:
  assumes "\<And>e. never_raises (h e)"
  shows "never_raises (catch m h)"
  unfolding never_raises_def
proof
  fix w
  obtain r w1 where m: "m w = (r, w1)" by (cases "m w")
  show "\<exists>a. fst (catch m h w) = Inr a"
  proof (cases r)
    case (Inl e)
    from assms obtain a where "fst (h e w1) = Inr a" by (auto simp: never_raises_def)
    with m Inl show ?thesis by (simp add: catch_def)
  next
    case (Inr a)
    with m show ?thesis by (simp add: catch_def)
  qed
qed

lemma never_raises_now: "never_raises (now env)"
  by (simp add: never_raises_def now_def split: prod.splits)

lemma never_raises_time: "never_raises (time env)"
  by (simp add: never_raises_def time_def split: prod.splits)

lemma never_raises_scrape_profile_content:
  "never_raises (scrape_profile_content env user num_posts num_reels content_kind)"
  unfolding scrape_profile_content_def
  by (intro never_raises_xbind never_raises_now never_raises_catch never_raises_ret)

lemma never_raises_scrape_one:
  "never_raises (scrape_one env user posts_per_profile reels_per_profile content_kind)"
  unfolding scrape_one_def
  by (intro never_raises_xbind never_raises_time never_raises_scrape_profile_content
      never_raises_ret)

lemma returns:
  assumes "never_raises m"
  obtains a w' where "m w = (Inr a, w')"
  using assms by (cases "m w") (auto simp: never_raises_def dest: spec [of _ w])

section \<open>The batch\<close>

lemma total_profiles_add_result [simp]:
  "total_profiles (totals (add_result all_results r)) = total_profiles (totals all_results)"
  by (simp add: add_result_def)

lemma profiles_add_result [simp]:
  "profiles (add_result all_results r) = profiles all_results @ [r]"
  by (simp add: add_result_def)

lemma successful_add_result:
  "successful_profiles (totals (add_result all_results r))
     \<le> Suc (successful_profiles (totals all_results))"
  by (simp add: add_result_def)

lemma profiles_loop_total:
  "\<exists>res. fst (profiles_loop env n i users pp rp ck all_results w) = Inr res
     \<and> total_profiles (totals res) = total_profiles (totals all_results)
     \<and> successful_profiles (totals res)
         \<le> successful_profiles (totals all_results) + length users"
proof (induction users arbitrary: i all_results w)
  case Nil
  show ?case by (simp add: ret_def)
next
  case (Cons user users)
  obtain r w1 where r: "scrape_one env user pp rp ck w = (Inr r, w1)"
    by (rule returns [OF never_raises_scrape_one])
  let ?w2 = "if i < n then snd (sleep env PROFILE_DELAY_MIN PROFILE_DELAY_MAX w1) else w1"
  have "profiles_loop env n i (user # users) pp rp ck all_results w
      = profiles_loop env n (Suc i) users pp rp ck (add_result all_results r) ?w2"
    using r by (simp add: xbind_def sleep_def ret_def)
  with Cons [of "Suc i" "add_result all_results r" ?w2] successful_add_result [of all_results r]
  show ?case by auto
qed

lemma scrape_multiple_profiles_rate:
  "\<exists>res. fst (scrape_multiple_profiles env usernames pp rp ck w) = Inr res
     \<and> total_profiles (totals res) = length usernames
     \<and> successful_profiles (totals res) \<le> total_profiles (totals res)
     \<and> success_rate_of (successful_profiles (totals res)) (total_profiles (totals res))
         = Inr (success_rate (totals res))"
proof -
  obtain stamp w0 where n: "now env w = (Inr stamp, w0)"
    by (cases "request env Now w") (simp add: now_def)
  let ?init = "\<lparr>profiles = [],
               totals = \<lparr>total_profiles = length usernames, successful_profiles = 0,
                         total_posts = 0, total_reels = 0, batch_scraped_at = stamp,
                         success_rate = Finite 0\<rparr>\<rparr>"
  obtain res w1 where res: "profiles_loop env (length usernames) 1 usernames pp rp ck ?init w0 = (Inr res, w1)"
    "total_profiles (totals res) = length usernames"
    "successful_profiles (totals res) \<le> length usernames"
    using profiles_loop_total [of env "length usernames" 1 usernames pp rp ck ?init w0]
    by (cases "profiles_loop env (length usernames) 1 usernames pp rp ck ?init w0") auto
  obtain rate where rate:
    "success_rate_of (successful_profiles (totals res)) (total_profiles (totals res)) = Inr rate"
    using success_rate_returns [of "successful_profiles (totals res)" "total_profiles (totals res)"]
      res(2,3) by auto
  have "scrape_multiple_profiles env usernames pp rp ck w
      = (Inr (res\<lparr>totals := (totals res)\<lparr>success_rate := rate\<rparr>\<rparr>), w1)"
    using n res(1) rate by (simp add: scrape_multiple_profiles_def xbind_def ret_def lift_def)
  with res(2,3) rate show ?thesis by simp
qed

section \<open>The success rate\<close>

text \<open>
  C9, as stated: the success rate equals \<^verbatim>\<open>successful_profiles / total_profiles * 100\<close>
  for every positive total. The code rounds that product to two decimals: one success of
  three gives 33.33, while the product is 33.33333333333333 as a float (and 100/3
  exactly).
\<close>

theorem success_rate_third:
  "success_rate_of 1 3 = Inr (Finite (2345390243441541 / 70368744177664))
   \<and> int_truediv 1 3 = Inr (Finite (6004799503160661 / 18014398509481984))
   \<and> float_mul (Finite (6004799503160661 / 18014398509481984)) (Finite 100)
       = Finite (2345624805922133 / 70368744177664)
   \<and> (2345390243441541 / 70368744177664 :: rat) \<noteq> 2345624805922133 / 70368744177664
   \<and> (2345390243441541 / 70368744177664 :: rat) \<noteq> 1 / 3 * 100"
  by code_simp

text \<open>
  C9, amended: for every positive total, and at most that many successes, the success
  rate is \<^verbatim>\<open>round(successful_profiles / total_profiles * 100, 2)\<close> in float arithmetic:
  the quotient of the two integers as a float, times 100 as a float, rounded to a
  two-decimal value within 1/200 of that product, and that value as a float; 2 of 5
  gives 40.0. For a total of 0 it is 0.0: the guard keeps away the division, which
  raises ZeroDivisionError on a zero divisor. It is what \<^verbatim>\<open>scrape_multiple_profiles\<close>
  stores in the summary, for the counts of that summary, which never has more successes
  than profiles.
\<close>

theorem success_rate_rounded:
  "(0 < total_count \<and> success_count \<le> total_count \<longrightarrow>
      (\<exists>q x k. int_truediv (int success_count) (int total_count) = Inr (Finite q)
         \<and> float_mul (Finite q) (Finite 100) = Finite x
         \<and> \<bar>of_int k / 100 - x\<bar> \<le> 1 / 200
         \<and> success_rate_of success_count total_count = Inr (to_double (of_int k / 100))))
   \<and> success_rate_of 2 5 = Inr (Finite 40)
   \<and> success_rate_of success_count 0 = Inr (Finite 0)
   \<and> int_truediv (int success_count) 0 = Inl ZeroDivisionError
   \<and> (\<exists>res. fst (scrape_multiple_profiles env usernames pp rp ck w) = Inr res
        \<and> total_profiles (totals res) = length usernames
        \<and> successful_profiles (totals res) \<le> total_profiles (totals res)
        \<and> success_rate_of (successful_profiles (totals res)) (total_profiles (totals res))
            = Inr (success_rate (totals res)))"
proof -
  have "success_rate_of 2 5 = Inr (Finite 40)" by code_simp
  moreover have "success_rate_of success_count 0 = Inr (Finite 0)"
  proof -
    have "round_half_even 0 = 0" by (simp add: round_half_even_def)
    then show ?thesis by (simp add: success_rate_of_def to_double_def)
  qed
  moreover have "int_truediv (int success_count) 0 = Inl ZeroDivisionError"
    by (simp add: int_truediv_def)
  ultimately show ?thesis
    using scrape_multiple_profiles_rate [of env usernames pp rp ck w]
      success_rate_parts [of total_count success_count]
    by blast
qed

theorem success_rate_rounded_witness:
  "(0::nat) < 160 \<and> (23::nat) \<le> 160
   \<and> int_truediv (int 23) (int 160) = Inr (Finite (2589569785738035 / 18014398509481984))
   \<and> float_mul (Finite (2589569785738035 / 18014398509481984)) (Finite 100)
       = Finite (8092405580431359 / 562949953421312)
   \<and> \<bar>of_int 1437 / 100 - (8092405580431359 / 562949953421312 :: rat)\<bar> \<le> 1 / 200
   \<and> success_rate_of 23 160 = Inr (to_double (of_int 1437 / 100))
   \<and> success_rate_of 23 160 = Inr (Finite (8089590830664253 / 562949953421312))
   \<and> (\<exists>q x k. int_truediv (int 23) (int 160) = Inr (Finite q)
         \<and> float_mul (Finite q) (Finite 100) = Finite x
         \<and> \<bar>of_int k / 100 - x\<bar> \<le> 1 / 200
         \<and> success_rate_of 23 160 = Inr (to_double (of_int k / 100)))"
proof -
  have a: "(0::nat) < 160" "(23::nat) \<le> 160" by simp_all
  have f1: "int_truediv (int 23) (int 160) = Inr (Finite (2589569785738035 / 18014398509481984))"
    by code_simp
  have f2: "float_mul (Finite (2589569785738035 / 18014398509481984)) (Finite 100)
       = Finite (8092405580431359 / 562949953421312)" by code_simp
  have f3: "\<bar>of_int 1437 / 100 - (8092405580431359 / 562949953421312 :: rat)\<bar> \<le> 1 / 200"
    by simp
  have f4: "success_rate_of 23 160 = Inr (Finite (8089590830664253 / 562949953421312))"
    by code_simp
  have "to_double (of_int 1437 / 100) = Finite (8089590830664253 / 562949953421312)"
    by code_simp
  with f4 have f5: "success_rate_of 23 160 = Inr (to_double (of_int 1437 / 100))" by simp
  have th: "\<exists>q x k. int_truediv (int 23) (int 160) = Inr (Finite q)
         \<and> float_mul (Finite q) (Finite 100) = Finite x
         \<and> \<bar>of_int k / 100 - x\<bar> \<le> 1 / 200
         \<and> success_rate_of 23 160 = Inr (to_double (of_int k / 100))"
    using success_rate_rounded [of 160 23] a by blast
  show ?thesis using a f1 f2 f3 f4 f5 th by blast
qed

section \<open>Scraping a profile stays inside it\<close>










section \<open>A redirected profile\<close>





section \<open>The orchestrator\<close>


lemma session_file_paced: "session_file (paced env w) = session_file w"
  by (simp add: paced_def sleep_def request_def split: prod.splits)










section \<open>Restoring a session\<close>

lemma local_add_cookies: "local_prog (add_cookies env cs)"
  by (induction cs)
     (auto intro!: local_ret local_xbind local_catch local_perform simp: profile_delay_def)

lemma fixed_sleep_not_delay: "Sleep t t \<noteq> profile_delay"
  by (simp add: profile_delay_def PROFILE_DELAY_MIN_def PROFILE_DELAY_MAX_def)

lemma local_restore_cookies: "local_prog (restore_cookies env st)"
  unfolding restore_cookies_def
  by (intro local_xbind local_perform local_sleep local_lift local_add_cookies
      fixed_sleep_not_delay) (simp_all add: profile_delay_def)

lemma local_probe_indicators: "local_prog (probe_indicators env indicators)"
  by (induction indicators)
     (auto intro!: local_ret local_xbind local_catch_timeout local_perform
        simp: profile_delay_def)

lemma session_file_kept: "local_prog m \<Longrightarrow> m w = (r, w') \<Longrightarrow> session_file w' = session_file w"
  by (auto dest: inside_prog simp: inside_def)

text \<open>
  C3, as stated: when the restored session fails every probe and the address matches a
  login marker, \<^verbatim>\<open>load_session\<close> returns false and the stored record is removed. It
  returns false, but the file is still there: \<^verbatim>\<open>os.remove\<close> stands only in the exception
  handler, and a failed check raises nothing.
\<close>

theorem expired_session_kept:
  "fst (probe_indicators expired login_indicators
          (snd (restore_cookies expired (Session stale) kept))) = Inr False
   \<and> fst (current_url expired
          (snd (probe_indicators expired login_indicators
                  (snd (restore_cookies expired (Session stale) kept)))))
       = Inr ''https://www.instagram.com/accounts/login/''
   \<and> str_in ''accounts/login'' ''https://www.instagram.com/accounts/login/''
   \<and> fst (load_session expired kept) = Inr False
   \<and> session_file (snd (load_session expired kept)) = Some (Session stale)
   \<and> session_file (snd (load_session expired kept)) \<noteq> None"
  by (simp add: load_session_def check_login_status_def restore_cookies_def login_indicators_def
      cookies_entry_def unpickle_def stale_def kept_def expired_def
      catch_timeout_def catch_def xbind_def ret_def raise_def lift_def current_url_def call_def
      request_def perform_def sleep_def)

text \<open>
  C3, amended: for a stored session record whose restore steps run, whose restored
  session fails all authenticated-state probes and whose address matches a login marker,
  \<^verbatim>\<open>load_session\<close> returns false and leaves the stored record in place, and \<^verbatim>\<open>login\<close>
  goes on with a fresh credential login.
\<close>

theorem failed_restore_keeps_record:
  assumes "session_file w = Some (Session sd)"
    and "restore_cookies env (Session sd) w = (Inr (), w1)"
    and "probe_indicators env login_indicators w1 = (Inr False, w2)"
    and "current_url env w2 = (Inr address, w3)"
    and "str_in ''accounts/login'' address \<or> str_in ''login'' address"
  shows "load_session env w = (Inr False, w3)
     \<and> session_file w3 = Some (Session sd)
     \<and> login env user password True w = fresh_login env user password True w3"
proof -
  have c: "check_login_status env w1 = (Inr False, w3)"
    using assms(3,4,5) by (simp add: check_login_status_def catch_def xbind_def ret_def)
  have l: "load_session env w = (Inr False, w3)"
    using assms(1,2) c
    by (simp add: load_session_def catch_def xbind_def lift_def unpickle_def)
  have "session_file w1 = session_file w"
    using assms(2) by (rule session_file_kept [OF local_restore_cookies])
  moreover have "session_file w2 = session_file w1"
    using assms(3) by (rule session_file_kept [OF local_probe_indicators])
  moreover have "session_file w3 = session_file w2"
    using assms(4) by (rule session_file_kept [OF local_current_url])
  ultimately have "session_file w3 = Some (Session sd)" using assms(1) by simp
  moreover have "login env user password True w = fresh_login env user password True w3"
    using l by (simp add: login_def xbind_def)
  ultimately show ?thesis using l by simp
qed

lemma runs: "fst p = r \<Longrightarrow> p = (r, snd p)"
  by (cases p) simp

theorem failed_restore_keeps_record_witness:
  "session_file kept = Some (Session stale)
   \<and> fst (restore_cookies expired (Session stale) kept) = Inr ()
   \<and> fst (probe_indicators expired login_indicators
            (snd (restore_cookies expired (Session stale) kept))) = Inr False
   \<and> fst (current_url expired
            (snd (probe_indicators expired login_indicators
                    (snd (restore_cookies expired (Session stale) kept)))))
       = Inr ''https://www.instagram.com/accounts/login/''
   \<and> str_in ''accounts/login'' ''https://www.instagram.com/accounts/login/''
   \<and> fst (load_session expired kept) = Inr False
   \<and> session_file (snd (load_session expired kept)) = Some (Session stale)
   \<and> login expired ''me'' ''secret'' True kept
       = fresh_login expired ''me'' ''secret'' True (snd (load_session expired kept))"
proof -
  let ?w1 = "snd (restore_cookies expired (Session stale) kept)"
  let ?w2 = "snd (probe_indicators expired login_indicators ?w1)"
  let ?w3 = "snd (current_url expired ?w2)"
  have f: "session_file kept = Some (Session stale)" by (simp add: kept_def)
  have r: "fst (restore_cookies expired (Session stale) kept) = Inr ()"
    by (simp add: restore_cookies_def cookies_entry_def stale_def kept_def expired_def
        catch_def xbind_def ret_def lift_def call_def request_def perform_def sleep_def)
  have p: "fst (probe_indicators expired login_indicators ?w1) = Inr False"
    by (simp add: login_indicators_def expired_def catch_timeout_def catch_def xbind_def
        ret_def call_def request_def perform_def)
  have c: "fst (current_url expired ?w2) = Inr ''https://www.instagram.com/accounts/login/''"
    by (simp add: current_url_def expired_def xbind_def ret_def call_def request_def)
  have m: "str_in ''accounts/login'' ''https://www.instagram.com/accounts/login/''
      \<or> str_in ''login'' ''https://www.instagram.com/accounts/login/''" by simp
  from failed_restore_keeps_record [OF f runs [OF r] runs [OF p] runs [OF c] m, of "''me''" "''secret''"]
    f r p c
  show ?thesis by simp
qed

section \<open>Fresh login\<close>






text \<open>
  C6, as stated: under its conditions \<^verbatim>\<open>login\<close> returns true and, with \<open>use_session\<close>
  set, persists a new session record. It returns true, but \<^verbatim>\<open>save_session\<close> swallows
  the exception of any of its driver calls and \<^verbatim>\<open>login\<close> drops its result: in a browser
  whose cookies cannot be read the login returns true and no record is written.
\<close>

lemmas login_simps = login_def fresh_login_def submit_credentials_def await_login_outcome_def
  login_timeout_fallback_def save_if_def save_session_def write_session_file_def
  load_session_def restore_cookies_def check_login_status_def login_indicators_def
  home_indicators_def cookies_of_def cookies_entry_def unpickle_def elements_found_def
  text_of_def DEFAULT_WAIT_def
  catch_timeout_def catch_def xbind_def ret_def raise_def lift_def current_url_def call_def
  request_def perform_def attempt_def now_def sleep_def slow_home_def no_cookies_def
  start_def kept_def stale_def



lemma slow_home_login:
  "fst (login slow_home ''me'' ''secret'' True kept) = Inr True
   \<and> session_file (snd (login slow_home ''me'' ''secret'' True kept))
       = Some (Session \<lparr>cookies = [''sessionid=42''], saved_at = ''2024-05-01T10:00:00'',
                         user_agent = ''Mozilla/5.0''\<rparr>)"
  by (simp add: login_simps)


end
